theory Spec2Isabelle
  imports
    Complex_Main
    "HOL-Library.Multiset"
    "HOL-Library.Char_ord"
    "HOL-Library.List_Lexorder"
    "HOL-Library.Word"
begin

section \<open>Policy resolution: \<^verbatim>\<open>vxlan-policy-agent/planner/planner_linux.go\<close>\<close>

subsection \<open>Data model\<close>

text \<open>
  Go strings are byte sequences; a \<^typ>\<open>string\<close> is a list of 8-bit characters. Go's
  \<^verbatim>\<open>int\<close> fields are only copied and printed by the planner, never added or multiplied,
  so they are \<^typ>\<open>int\<close>.

  The struct \<^verbatim>\<open>container\<close> and the \<^verbatim>\<open>policy_client\<close> structs are declared outside the
  two source files. The records below hold exactly the fields that
  \<^verbatim>\<open>getContainerPolicies\<close> reads, under the names it reads them by.
\<close>

record container =
  IP :: string
  AppID :: string
  SpaceID :: string
  Purpose :: string
  Ports :: string

record Source =
  ID :: string
  Tag :: string

record Ports =
  Start :: int
  End :: int

record Destination =
  ID :: string
  Protocol :: string
  Ports :: Ports

record Policy =
  Source :: Source
  Destination :: Destination

record EgressSource =
  ID :: string
  Type :: string

record IPRange =
  Start :: string
  End :: string

record EgressDestination =
  Protocol :: string
  Ports :: "Ports list"
  IPRanges :: "IPRange list"
  ICMPType :: int
  ICMPCode :: int

record EgressPolicy =
  Source :: EgressSource
  Destination :: EgressDestination
  AppLifecycle :: string

text \<open>The four resolved tuple types, fields in the order the Go structs declare them.\<close>

record source =
  IP :: string
  Tag :: string
  GUID :: string

record destination =
  IP :: string
  StartPort :: int
  EndPort :: int
  GUID :: string
  SourceGUID :: string
  Protocol :: string
  SourceTag :: string

record egress =
  SourceIP :: string
  Protocol :: string
  IpStart :: string
  IpEnd :: string
  IcmpType :: int
  IcmpCode :: int
  PortStart :: int
  PortEnd :: int

record ingress =
  IngressTag :: string
  IP :: string
  Protocol :: string
  Port :: int

record containerPolicySet =
  Source :: "source list"
  Destination :: "destination list"
  Ingress :: "ingress list"
  Egress :: "egress list"

text \<open>Go's zero value of \<^verbatim>\<open>containerPolicySet\<close>: four nil slices.\<close>

definition emptyPolicySet :: containerPolicySet where
  "emptyPolicySet =
     \<lparr>containerPolicySet.Source = [], containerPolicySet.Destination = [],
      Ingress = [], Egress = []\<rparr>"

subsection \<open>Standard-library functions the planner calls\<close>

text \<open>
  \<^verbatim>\<open>strings.Split(s, ",")\<close> with a one-byte separator: the pieces between the separators,
  empty pieces included; the empty string gives one empty piece.
\<close>

fun Split :: "string \<Rightarrow> char \<Rightarrow> string list" where
  "Split [] sep = [[]]"
| "Split (c # cs) sep =
     (if c = sep then [] # Split cs sep
      else (case Split cs sep of
              [] \<Rightarrow> [[c]]
            | w # ws \<Rightarrow> (c # w) # ws))"

text \<open>
  \<^verbatim>\<open>strings.TrimSpace\<close>: removes leading and trailing white space as Unicode defines it.
  On bytes these are the six ASCII characters tab, line feed, vertical tab, form feed,
  carriage return and space, and the UTF-8 encodings of U+0085, U+00A0, U+1680,
  U+2000 to U+200A, U+2028, U+2029, U+202F, U+205F and U+3000.
\<close>

definition spaceSeqs :: "string list" where
  "spaceSeqs =
     [[CHR 0x09], [CHR 0x0A], [CHR 0x0B], [CHR 0x0C], [CHR 0x0D], [CHR 0x20],
      [CHR 0xC2, CHR 0x85], [CHR 0xC2, CHR 0xA0],
      [CHR 0xE1, CHR 0x9A, CHR 0x80],
      [CHR 0xE2, CHR 0x80, CHR 0x80], [CHR 0xE2, CHR 0x80, CHR 0x81],
      [CHR 0xE2, CHR 0x80, CHR 0x82], [CHR 0xE2, CHR 0x80, CHR 0x83],
      [CHR 0xE2, CHR 0x80, CHR 0x84], [CHR 0xE2, CHR 0x80, CHR 0x85],
      [CHR 0xE2, CHR 0x80, CHR 0x86], [CHR 0xE2, CHR 0x80, CHR 0x87],
      [CHR 0xE2, CHR 0x80, CHR 0x88], [CHR 0xE2, CHR 0x80, CHR 0x89],
      [CHR 0xE2, CHR 0x80, CHR 0x8A],
      [CHR 0xE2, CHR 0x80, CHR 0xA8], [CHR 0xE2, CHR 0x80, CHR 0xA9],
      [CHR 0xE2, CHR 0x80, CHR 0xAF], [CHR 0xE2, CHR 0x81, CHR 0x9F],
      [CHR 0xE3, CHR 0x80, CHR 0x80]]"

definition leadingSpace :: "string \<Rightarrow> nat" where
  "leadingSpace s =
     (case filter (\<lambda>w. take (length w) s = w) spaceSeqs of
        [] \<Rightarrow> 0
      | w # _ \<Rightarrow> length w)"

lemma leadingSpace_le: "leadingSpace s \<le> length s"
proof (cases "filter (\<lambda>w. take (length w) s = w) spaceSeqs")
  case Nil
  then show ?thesis by (simp add: leadingSpace_def)
next
  case (Cons w ws)
  then have "w \<in> set (filter (\<lambda>w. take (length w) s = w) spaceSeqs)" by simp
  then have "take (length w) s = w" by simp
  then have "length (take (length w) s) = length w" by simp
  then have "length w \<le> length s" by simp
  with Cons show ?thesis by (simp add: leadingSpace_def)
qed

lemma leadingSpace_pos: "0 < leadingSpace s \<Longrightarrow> length s - leadingSpace s < length s"
  using leadingSpace_le [of s] by arith

function TrimLeftSpace :: "string \<Rightarrow> string" where
  "TrimLeftSpace s =
     (if leadingSpace s = 0 then s else TrimLeftSpace (drop (leadingSpace s) s))"
  by pat_completeness auto
termination
  by (relation "measure length") (auto intro: leadingSpace_pos)

definition trailingSpace :: "string \<Rightarrow> nat" where
  "trailingSpace s =
     (case filter (\<lambda>w. drop (length s - length w) s = w) spaceSeqs of
        [] \<Rightarrow> 0
      | w # _ \<Rightarrow> length w)"

lemma trailingSpace_pos:
  assumes "0 < trailingSpace s"
  shows "length s - trailingSpace s < length s"
proof (cases "filter (\<lambda>w. drop (length s - length w) s = w) spaceSeqs")
  case Nil
  with assms show ?thesis by (simp add: trailingSpace_def)
next
  case (Cons w ws)
  then have "w \<in> set (filter (\<lambda>w. drop (length s - length w) s = w) spaceSeqs)" by simp
  then have w: "w \<in> set spaceSeqs" and d: "drop (length s - length w) s = w" by simp_all
  from w have "w \<noteq> []" by (auto simp: spaceSeqs_def)
  with d have "s \<noteq> []" by auto
  with assms show ?thesis by simp
qed

function TrimRightSpace :: "string \<Rightarrow> string" where
  "TrimRightSpace s =
     (if trailingSpace s = 0 then s
      else TrimRightSpace (take (length s - trailingSpace s) s))"
  by pat_completeness auto
termination
  by (relation "measure length") (auto intro: trailingSpace_pos)

definition TrimSpace :: "string \<Rightarrow> string" where
  "TrimSpace s = TrimRightSpace (TrimLeftSpace s)"

text \<open>
  \<^verbatim>\<open>strconv.Atoi\<close> on a 64-bit platform: an optional sign, then at least one decimal digit
  and nothing else. The digits are read from the left into an unsigned 64-bit
  accumulator; the first byte that is not a digit is a syntax error, the first step that
  leaves the accumulator's range is a range error, and so is a result outside the signed
  64-bit range. The error carries the string that was parsed.
\<close>

datatype NumError = ErrSyntax string | ErrRange string

definition isDigit :: "char \<Rightarrow> bool" where
  "isDigit c = (48 \<le> (of_char c :: nat) \<and> (of_char c :: nat) \<le> 57)"

definition digitVal :: "char \<Rightarrow> int" where
  "digitVal c = of_char c - 48"

fun ParseUint :: "string \<Rightarrow> string \<Rightarrow> int \<Rightarrow> NumError + int" where
  "ParseUint s0 [] n = Inr n"
| "ParseUint s0 (c # cs) n =
     (if \<not> isDigit c then Inl (ErrSyntax s0)
      else if 2 ^ 64 \<le> n * 10 + digitVal c then Inl (ErrRange s0)
      else ParseUint s0 cs (n * 10 + digitVal c))"

definition Atoi :: "string \<Rightarrow> NumError + int" where
  "Atoi s0 =
     (let neg = (s0 \<noteq> [] \<and> hd s0 = CHR ''-'');
          s = (if s0 \<noteq> [] \<and> (hd s0 = CHR ''+'' \<or> hd s0 = CHR ''-'') then tl s0 else s0)
      in if s = [] then Inl (ErrSyntax s0)
         else (case ParseUint s0 s 0 of
                 Inl err \<Rightarrow> Inl err
               | Inr un \<Rightarrow>
                   if \<not> neg \<and> 2 ^ 63 \<le> un then Inl (ErrRange s0)
                   else if neg \<and> 2 ^ 63 < un then Inl (ErrRange s0)
                   else Inr (if neg then - un else un)))"

text \<open>
  \<^verbatim>\<open>json.Marshal\<close> of a struct whose fields are strings and ints: an object with one
  member per field, in the order of declaration, keyed by the field's name. A string is
  written between double quotes with the escapes of \<^verbatim>\<open>encoding/json\<close> (HTML escaping
  is on by default): quote and backslash get a backslash, the control characters get
  \<^verbatim>\<open>\b \f \n \r \t\<close> or \<^verbatim>\<open>\u00XX\<close>, and so do \<^verbatim>\<open><\<close>, \<^verbatim>\<open>>\<close> and \<^verbatim>\<open>&\<close>. Bytes from
  0x80 on are copied, which is what the encoder does on well-formed UTF-8 text other
  than U+2028 and U+2029. An int is written in decimal. For these field types
  \<^verbatim>\<open>json.Marshal\<close> returns no error, so the \<^verbatim>\<open>panic(err)\<close> of the four \<^verbatim>\<open>Less\<close> methods
  is dead code and the model has no branch for it.
\<close>

definition hexDigit :: "nat \<Rightarrow> char" where
  "hexDigit n = ''0123456789abcdef'' ! n"

definition escapeByte :: "char \<Rightarrow> string" where
  "escapeByte c =
     (let b = (of_char c :: nat) in
      if c = CHR 0x22 \<or> c = CHR 0x5C then [CHR 0x5C, c]
      else if b = 0x08 then [CHR 0x5C, CHR ''b'']
      else if b = 0x0C then [CHR 0x5C, CHR ''f'']
      else if b = 0x0A then [CHR 0x5C, CHR ''n'']
      else if b = 0x0D then [CHR 0x5C, CHR ''r'']
      else if b = 0x09 then [CHR 0x5C, CHR ''t'']
      else if b < 0x20 \<or> c = CHR ''<'' \<or> c = CHR ''>'' \<or> c = CHR ''&''
        then [CHR 0x5C, CHR ''u'', CHR ''0'', CHR ''0'', hexDigit (b div 16), hexDigit (b mod 16)]
      else [c])"

definition jsonString :: "string \<Rightarrow> string" where
  "jsonString s = CHR 0x22 # concat (map escapeByte s) @ [CHR 0x22]"

fun digits :: "nat \<Rightarrow> string" where
  "digits n =
     (if n < 10 then [char_of (48 + n)]
      else digits (n div 10) @ [char_of (48 + n mod 10)])"

declare digits.simps [simp del]

definition Itoa :: "int \<Rightarrow> string" where
  "Itoa i = (if i < 0 then CHR ''-'' # digits (nat (- i)) else digits (nat i))"

definition jsonKey :: "string \<Rightarrow> string" where
  "jsonKey name = CHR 0x22 # name @ [CHR 0x22, CHR '':'']"

definition marshalSource :: "source \<Rightarrow> string" where
  "marshalSource x =
     ''{'' @ jsonKey ''IP'' @ jsonString (source.IP x) @
     '','' @ jsonKey ''Tag'' @ jsonString (source.Tag x) @
     '','' @ jsonKey ''GUID'' @ jsonString (source.GUID x) @ ''}''"

definition marshalDestination :: "destination \<Rightarrow> string" where
  "marshalDestination x =
     ''{'' @ jsonKey ''IP'' @ jsonString (destination.IP x) @
     '','' @ jsonKey ''StartPort'' @ Itoa (StartPort x) @
     '','' @ jsonKey ''EndPort'' @ Itoa (EndPort x) @
     '','' @ jsonKey ''GUID'' @ jsonString (destination.GUID x) @
     '','' @ jsonKey ''SourceGUID'' @ jsonString (SourceGUID x) @
     '','' @ jsonKey ''Protocol'' @ jsonString (destination.Protocol x) @
     '','' @ jsonKey ''SourceTag'' @ jsonString (SourceTag x) @ ''}''"

definition marshalEgress :: "egress \<Rightarrow> string" where
  "marshalEgress x =
     ''{'' @ jsonKey ''SourceIP'' @ jsonString (SourceIP x) @
     '','' @ jsonKey ''Protocol'' @ jsonString (egress.Protocol x) @
     '','' @ jsonKey ''IpStart'' @ jsonString (IpStart x) @
     '','' @ jsonKey ''IpEnd'' @ jsonString (IpEnd x) @
     '','' @ jsonKey ''IcmpType'' @ Itoa (IcmpType x) @
     '','' @ jsonKey ''IcmpCode'' @ Itoa (IcmpCode x) @
     '','' @ jsonKey ''PortStart'' @ Itoa (PortStart x) @
     '','' @ jsonKey ''PortEnd'' @ Itoa (PortEnd x) @ ''}''"

definition marshalIngress :: "ingress \<Rightarrow> string" where
  "marshalIngress x =
     ''{'' @ jsonKey ''IngressTag'' @ jsonString (IngressTag x) @
     '','' @ jsonKey ''IP'' @ jsonString (ingress.IP x) @
     '','' @ jsonKey ''Protocol'' @ jsonString (ingress.Protocol x) @
     '','' @ jsonKey ''Port'' @ Itoa (Port x) @ ''}''"

subsection \<open>The comparators and the sort\<close>

text \<open>
  Each \<^verbatim>\<open>Less(i, j)\<close> marshals both elements and returns
  \<^verbatim>\<open>strings.Compare(string(a), string(b)) < 0\<close>: the bytewise lexicographic order of the
  two JSON texts, which is the order of \<^typ>\<open>string\<close>.
\<close>

definition sourceLess :: "source \<Rightarrow> source \<Rightarrow> bool" where
  "sourceLess x y = (marshalSource x < marshalSource y)"

definition destinationLess :: "destination \<Rightarrow> destination \<Rightarrow> bool" where
  "destinationLess x y = (marshalDestination x < marshalDestination y)"

definition egressLess :: "egress \<Rightarrow> egress \<Rightarrow> bool" where
  "egressLess x y = (marshalEgress x < marshalEgress y)"

definition ingressLess :: "ingress \<Rightarrow> ingress \<Rightarrow> bool" where
  "ingressLess x y = (marshalIngress x < marshalIngress y)"

text \<open>
  \<^verbatim>\<open>sort.Sort\<close> is the standard library's: it rearranges the slice, through \<^verbatim>\<open>Swap\<close>
  only, until no element is \<^verbatim>\<open>Less\<close> than an element before it. The model is the
  insertion sort of the JSON texts. \<^verbatim>\<open>sort.Sort\<close> does not promise an order among
  elements that \<^verbatim>\<open>Less\<close> cannot tell apart; the lemmas below show that two tuples with
  the same JSON text are the same tuple, so the sorted slice is determined by the
  elements alone.
\<close>

definition sortSources :: "source list \<Rightarrow> source list" where
  "sortSources xs = sort_key marshalSource xs"

definition sortDestinations :: "destination list \<Rightarrow> destination list" where
  "sortDestinations xs = sort_key marshalDestination xs"

definition sortEgresses :: "egress list \<Rightarrow> egress list" where
  "sortEgresses xs = sort_key marshalEgress xs"

definition sortIngresses :: "ingress list \<Rightarrow> ingress list" where
  "sortIngresses xs = sort_key marshalIngress xs"

subsection \<open>\<^verbatim>\<open>getContainerPolicies\<close>\<close>

text \<open>
  An index out of range ends the Go function with a run-time panic; an error is a
  second return value. Both are values here: the result of \<^verbatim>\<open>getContainerPolicies\<close> is
  either \<open>Inl\<close> of a panic or \<open>Inr\<close> of the pair that Go returns, the policy set and
  the optional error.
\<close>

datatype panic = IndexOutOfRange

datatype error =
  ConvertingPort NumError
    \<comment> \<open>\<^verbatim>\<open>fmt.Errorf("converting container metadata port to int: %s", err)\<close>\<close>
| Datastore string
    \<comment> \<open>an error of \<^verbatim>\<open>readFile\<close>, passed on unchanged\<close>
| PolicyClientQuery string
    \<comment> \<open>an error of \<^verbatim>\<open>queryPolicyServer\<close>, passed on unchanged\<close>

definition containerPurposeMatchesAppLifecycle :: "string \<Rightarrow> string \<Rightarrow> bool" where
  "containerPurposeMatchesAppLifecycle containerPurpose appLifecycle =
     (appLifecycle = ''all'' \<or>
      containerPurpose = [] \<or>
      (appLifecycle = ''running'' \<and> (containerPurpose = ''task'' \<or> containerPurpose = ''app'')) \<or>
      appLifecycle = ''staging'' \<and> containerPurpose = ''staging'')"

text \<open>
  The state of the pass: the map \<^verbatim>\<open>visited\<close> (only the presence of a key is ever read)
  and the policy set under construction.
\<close>

type_synonym visited = "string \<rightharpoonup> bool"

text \<open>The struct literals of lines 221 to 225 and 232 to 240.\<close>

definition sourceOf :: "container \<Rightarrow> Policy \<Rightarrow> source" where
  "sourceOf c policy =
     \<lparr>source.IP = container.IP c,
      source.Tag = Source.Tag (Policy.Source policy),
      source.GUID = Source.ID (Policy.Source policy)\<rparr>"

definition destinationOf :: "container \<Rightarrow> Policy \<Rightarrow> destination" where
  "destinationOf c policy =
     \<lparr>destination.IP = container.IP c,
      StartPort = Ports.Start (Destination.Ports (Policy.Destination policy)),
      EndPort = Ports.End (Destination.Ports (Policy.Destination policy)),
      destination.GUID = Destination.ID (Policy.Destination policy),
      SourceGUID = Source.ID (Policy.Source policy),
      destination.Protocol = Destination.Protocol (Policy.Destination policy),
      SourceTag = Source.Tag (Policy.Source policy)\<rparr>"

text \<open>The body of the loop over \<^verbatim>\<open>policies\<close>, lines 219 to 242.\<close>

definition policyBody ::
  "container \<Rightarrow> Policy \<Rightarrow> visited \<times> containerPolicySet \<Rightarrow> visited \<times> containerPolicySet" where
  "policyBody c policy st =
     (let (visited, cps) = st;
          (visited, cps) =
            (if container.AppID c = Source.ID (Policy.Source policy) \<and>
                visited (container.IP c) = None
             then (visited(container.IP c \<mapsto> True),
                   cps\<lparr>containerPolicySet.Source :=
                         containerPolicySet.Source cps @ [sourceOf c policy]\<rparr>)
             else (visited, cps))
      in if container.AppID c = Destination.ID (Policy.Destination policy)
         then (visited,
               cps\<lparr>containerPolicySet.Destination :=
                     containerPolicySet.Destination cps @ [destinationOf c policy]\<rparr>)
         else (visited, cps))"

fun policiesLoop ::
  "container \<Rightarrow> Policy list \<Rightarrow> visited \<times> containerPolicySet \<Rightarrow> visited \<times> containerPolicySet" where
  "policiesLoop c [] st = st"
| "policiesLoop c (policy # policies) st = policiesLoop c policies (policyBody c policy st)"

text \<open>
  The loop over \<^verbatim>\<open>egressPolicies\<close>, lines 245 to 270. \<^verbatim>\<open>Ports[0]\<close> is read under the
  guard \<^verbatim>\<open>len(...) > 0\<close>, and the two ports stay at Go's zero value otherwise;
  \<^verbatim>\<open>IPRanges[0]\<close> is read with no guard, and Go panics when the slice is empty.
\<close>

definition egressApplies :: "container \<Rightarrow> EgressPolicy \<Rightarrow> bool" where
  "egressApplies c egressPolicy =
     (((EgressSource.ID (EgressPolicy.Source egressPolicy) = container.AppID c) \<or>
       (EgressSource.ID (EgressPolicy.Source egressPolicy) = container.SpaceID c \<and>
        EgressSource.Type (EgressPolicy.Source egressPolicy) = ''space'') \<or>
       EgressSource.Type (EgressPolicy.Source egressPolicy) = ''default'') \<and>
      containerPurposeMatchesAppLifecycle (container.Purpose c) (AppLifecycle egressPolicy))"

definition egressOf :: "container \<Rightarrow> EgressPolicy \<Rightarrow> IPRange \<Rightarrow> egress" where
  "egressOf c egressPolicy ipRange0 =
     (let (startPort, endPort) =
            (case EgressDestination.Ports (EgressPolicy.Destination egressPolicy) of
               [] \<Rightarrow> (0, 0)
             | ports0 # _ \<Rightarrow> (Ports.Start ports0, Ports.End ports0))
      in \<lparr>SourceIP = container.IP c,
          egress.Protocol = EgressDestination.Protocol (EgressPolicy.Destination egressPolicy),
          IpStart = IPRange.Start ipRange0,
          IpEnd = IPRange.End ipRange0,
          IcmpType = ICMPType (EgressPolicy.Destination egressPolicy),
          IcmpCode = ICMPCode (EgressPolicy.Destination egressPolicy),
          PortStart = startPort,
          PortEnd = endPort\<rparr>)"

fun egressLoop ::
  "container \<Rightarrow> EgressPolicy list \<Rightarrow> containerPolicySet \<Rightarrow> panic + containerPolicySet" where
  "egressLoop c [] cps = Inr cps"
| "egressLoop c (egressPolicy # egressPolicies) cps =
     (if egressApplies c egressPolicy then
        (case IPRanges (EgressPolicy.Destination egressPolicy) of
           [] \<Rightarrow> Inl IndexOutOfRange
         | ipRange0 # _ \<Rightarrow>
             egressLoop c egressPolicies
               (cps\<lparr>Egress := Egress cps @ [egressOf c egressPolicy ipRange0]\<rparr>))
      else egressLoop c egressPolicies cps)"

text \<open>
  The loop over the pieces of \<^verbatim>\<open>container.Ports\<close>, lines 274 to 285: the first piece
  that does not parse returns at once, with the set as it stands and the error.
\<close>

definition ingressOf :: "string \<Rightarrow> container \<Rightarrow> int \<Rightarrow> ingress" where
  "ingressOf ingressTag c convPort =
     \<lparr>IngressTag = ingressTag, ingress.IP = container.IP c,
      ingress.Protocol = ''tcp'', Port = convPort\<rparr>"

fun portsLoop ::
  "string \<Rightarrow> container \<Rightarrow> string list \<Rightarrow> containerPolicySet \<Rightarrow> containerPolicySet \<times> error option" where
  "portsLoop ingressTag c [] cps = (cps, None)"
| "portsLoop ingressTag c (port # ports) cps =
     (case Atoi (TrimSpace port) of
        Inl err \<Rightarrow> (cps, Some (ConvertingPort err))
      | Inr convPort \<Rightarrow>
          portsLoop ingressTag c ports
            (cps\<lparr>Ingress := Ingress cps @ [ingressOf ingressTag c convPort]\<rparr>))"

definition ingressBlock ::
  "bool \<Rightarrow> string \<Rightarrow> container \<Rightarrow> containerPolicySet \<Rightarrow> containerPolicySet \<times> error option" where
  "ingressBlock EnableOverlayIngressRules ingressTag c cps =
     (if EnableOverlayIngressRules then
        (if container.Ports c \<noteq> [] then
           portsLoop ingressTag c (Split (container.Ports c) CHR '','') cps
         else (cps, None))
      else (cps, None))"

text \<open>The loop over \<^verbatim>\<open>allContainers\<close>, lines 217 to 288.\<close>

fun containersLoop ::
  "bool \<Rightarrow> Policy list \<Rightarrow> EgressPolicy list \<Rightarrow> string \<Rightarrow> container list \<Rightarrow>
   visited \<times> containerPolicySet \<Rightarrow> panic + (containerPolicySet \<times> error option)" where
  "containersLoop en policies egressPolicies ingressTag [] st = Inr (snd st, None)"
| "containersLoop en policies egressPolicies ingressTag (c # cs) st =
     (let (visited, cps) = policiesLoop c policies st in
      case egressLoop c egressPolicies cps of
        Inl p \<Rightarrow> Inl p
      | Inr cps \<Rightarrow>
          (case ingressBlock en ingressTag c cps of
             (cps, Some err) \<Rightarrow> Inr (cps, Some err)
           | (cps, None) \<Rightarrow>
               containersLoop en policies egressPolicies ingressTag cs (visited, cps)))"

definition sortAll :: "containerPolicySet \<Rightarrow> containerPolicySet" where
  "sortAll cps =
     \<lparr>containerPolicySet.Source = sortSources (containerPolicySet.Source cps),
      containerPolicySet.Destination = sortDestinations (containerPolicySet.Destination cps),
      Ingress = sortIngresses (Ingress cps),
      Egress = sortEgresses (Egress cps)\<rparr>"

text \<open>
  The first argument is the receiver's field \<^verbatim>\<open>EnableOverlayIngressRules\<close>, the only
  field of the planner that \<^verbatim>\<open>getContainerPolicies\<close> reads.
\<close>

definition getContainerPolicies ::
  "bool \<Rightarrow> Policy list \<Rightarrow> EgressPolicy list \<Rightarrow> string \<Rightarrow> container list \<Rightarrow>
   panic + (containerPolicySet \<times> error option)" where
  "getContainerPolicies EnableOverlayIngressRules policies egressPolicies ingressTag allContainers =
     (case containersLoop EnableOverlayIngressRules policies egressPolicies ingressTag
             allContainers (Map.empty, emptyPolicySet) of
        Inl p \<Rightarrow> Inl p
      | Inr (cps, Some err) \<Rightarrow> Inr (cps, Some err)
      | Inr (cps, None) \<Rightarrow> Inr (sortAll cps, None))"

text \<open>The two conditions of the loop over \<^verbatim>\<open>policies\<close>, lines 219 and 231.\<close>

abbreviation isSource :: "container \<Rightarrow> Policy \<Rightarrow> bool" where
  "isSource c p \<equiv> container.AppID c = Source.ID (Policy.Source p)"

abbreviation isDestination :: "container \<Rightarrow> Policy \<Rightarrow> bool" where
  "isDestination c p \<equiv> container.AppID c = Destination.ID (Policy.Destination p)"

section \<open>Example inputs\<close>

definition exA :: container where
  "exA = \<lparr>container.IP = ''10.255.0.1'', AppID = ''A'', SpaceID = ''S'', Purpose = ''app'',
          container.Ports = ''8080, 9090''\<rparr>"

definition exB :: container where
  "exB = \<lparr>container.IP = ''10.255.0.2'', AppID = ''B'', SpaceID = ''S'', Purpose = ''staging'',
          container.Ports = []\<rparr>"

definition exPolicy :: "string \<Rightarrow> int \<Rightarrow> Policy" where
  "exPolicy tag port =
     \<lparr>Policy.Source = \<lparr>Source.ID = ''A'', Tag = tag\<rparr>,
      Policy.Destination = \<lparr>Destination.ID = ''B'', Protocol = ''tcp'',
        Ports = \<lparr>Ports.Start = port, End = port\<rparr>\<rparr>\<rparr>"

definition exResult :: containerPolicySet where
  "exResult =
     \<lparr>containerPolicySet.Source =
        [\<lparr>source.IP = ''10.255.0.1'', Tag = ''42'', GUID = ''A''\<rparr>],
      containerPolicySet.Destination =
        [\<lparr>destination.IP = ''10.255.0.2'', StartPort = 10, EndPort = 10, GUID = ''B'',
           SourceGUID = ''A'', Protocol = ''tcp'', SourceTag = ''43''\<rparr>,
         \<lparr>destination.IP = ''10.255.0.2'', StartPort = 9, EndPort = 9, GUID = ''B'',
           SourceGUID = ''A'', Protocol = ''tcp'', SourceTag = ''42''\<rparr>],
      Ingress = [], Egress = []\<rparr>"

definition exEgress :: "string \<Rightarrow> string \<Rightarrow> string \<Rightarrow> IPRange list \<Rightarrow> EgressPolicy" where
  "exEgress srcID srcType lifecycle ranges =
     \<lparr>EgressPolicy.Source = \<lparr>EgressSource.ID = srcID, Type = srcType\<rparr>,
      EgressPolicy.Destination =
        \<lparr>EgressDestination.Protocol = ''tcp'', Ports = [], IPRanges = ranges,
         ICMPType = 0, ICMPCode = 0\<rparr>,
      AppLifecycle = lifecycle\<rparr>"

definition exRange :: IPRange where
  "exRange = \<lparr>IPRange.Start = ''1.1.1.1'', End = ''1.1.1.9''\<rparr>"

definition exEgressResult :: containerPolicySet where
  "exEgressResult =
     \<lparr>containerPolicySet.Source = [], containerPolicySet.Destination = [], Ingress = [],
      Egress = [\<lparr>SourceIP = ''10.255.0.2'', Protocol = ''tcp'', IpStart = ''1.1.1.1'',
                 IpEnd = ''1.1.1.9'', IcmpType = 0, IcmpCode = 0, PortStart = 0,
                 PortEnd = 0\<rparr>]\<rparr>"

section \<open>Reading a JSON text back\<close>

text \<open>
  These functions are not part of the program. They read an escaped byte and a decimal
  back from a JSON text, and serve to prove that the text determines the tuple.
\<close>

definition hexVal :: "char \<Rightarrow> nat" where
  "hexVal h = length (takeWhile (\<lambda>c. c \<noteq> h) ''0123456789abcdef'')"

definition unescapeByte :: "string \<Rightarrow> (char \<times> string) option" where
  "unescapeByte s =
     (case s of
        [] \<Rightarrow> None
      | c1 # rest \<Rightarrow>
          if c1 \<noteq> CHR 0x5C then Some (c1, rest)
          else (case rest of
                  [] \<Rightarrow> None
                | c2 # rest2 \<Rightarrow>
                    if c2 = CHR ''b'' then Some (CHR 0x08, rest2)
                    else if c2 = CHR ''f'' then Some (CHR 0x0C, rest2)
                    else if c2 = CHR ''n'' then Some (CHR 0x0A, rest2)
                    else if c2 = CHR ''r'' then Some (CHR 0x0D, rest2)
                    else if c2 = CHR ''t'' then Some (CHR 0x09, rest2)
                    else if c2 = CHR ''u'' then
                      (case rest2 of
                         z1 # z2 # h1 # h2 # rest3 \<Rightarrow>
                           Some (char_of (hexVal h1 * 16 + hexVal h2), rest3)
                       | _ \<Rightarrow> None)
                    else Some (c2, rest2)))"

definition undigits :: "string \<Rightarrow> nat" where
  "undigits s = foldl (\<lambda>a c. 10 * a + (of_char c - 48)) 0 s"

section \<open>Properties of the model\<close>

subsection \<open>A JSON text determines its tuple\<close>

lemma hexVal_hexDigit: "n < 16 \<Longrightarrow> hexVal (hexDigit n) = n"
proof -
  have "\<forall>n\<in>set [0..<16]. hexVal (hexDigit n) = n"
    by code_simp
  then show "n < 16 \<Longrightarrow> hexVal (hexDigit n) = n" by simp
qed

lemma char_eq_of_nat: "of_char c = (n::nat) \<Longrightarrow> c = char_of n"
  by (metis char_of_char)

lemma unescape_escape: "unescapeByte (escapeByte c @ x) = Some (c, x)"
proof -
  define b where "b = (of_char c :: nat)"
  have b256: "b < 256" by (simp add: b_def)
  then have d: "b div 16 < 16" and m: "b mod 16 < 16" by simp_all
  have cb: "c = char_of b" by (simp add: b_def)
  have u: "char_of (hexVal (hexDigit (b div 16)) * 16 + hexVal (hexDigit (b mod 16))) = c"
    by (simp add: hexVal_hexDigit d m cb)
  consider
      (quote) "c = CHR 0x22 \<or> c = CHR 0x5C"
    | (short) "b = 8 \<or> b = 12 \<or> b = 10 \<or> b = 13 \<or> b = 9"
    | (long) "c \<noteq> CHR 0x22" "c \<noteq> CHR 0x5C" "b \<noteq> 8" "b \<noteq> 12" "b \<noteq> 10" "b \<noteq> 13" "b \<noteq> 9"
        "b < 32 \<or> c = CHR ''<'' \<or> c = CHR ''>'' \<or> c = CHR ''&''"
    | (plain) "c \<noteq> CHR 0x22" "c \<noteq> CHR 0x5C" "b \<noteq> 8" "b \<noteq> 12" "b \<noteq> 10" "b \<noteq> 13" "b \<noteq> 9"
        "\<not> (b < 32 \<or> c = CHR ''<'' \<or> c = CHR ''>'' \<or> c = CHR ''&'')"
    by blast
  then show ?thesis
  proof cases
    case quote
    then show ?thesis by (auto simp: escapeByte_def unescapeByte_def)
  next
    case short
    then have "of_char c = (of_char (CHR 0x08) :: nat) \<or> of_char c = (of_char (CHR 0x0C) :: nat) \<or>
        of_char c = (of_char (CHR 0x0A) :: nat) \<or> of_char c = (of_char (CHR 0x0D) :: nat) \<or>
        of_char c = (of_char (CHR 0x09) :: nat)"
      by (simp add: b_def)
    then have "c = CHR 0x08 \<or> c = CHR 0x0C \<or> c = CHR 0x0A \<or> c = CHR 0x0D \<or> c = CHR 0x09"
      by (simp only: of_char_eq_iff)
    then show ?thesis by (auto simp: escapeByte_def unescapeByte_def)
  next
    case long
    then have "escapeByte c =
        [CHR 0x5C, CHR ''u'', CHR ''0'', CHR ''0'', hexDigit (b div 16), hexDigit (b mod 16)]"
      unfolding escapeByte_def Let_def b_def [symmetric] by simp
    then have "unescapeByte (escapeByte c @ x) =
        Some (char_of (hexVal (hexDigit (b div 16)) * 16 + hexVal (hexDigit (b mod 16))), x)"
      by (simp add: unescapeByte_def)
    with u show ?thesis by simp
  next
    case plain
    then have "escapeByte c = [c]"
      unfolding escapeByte_def Let_def b_def [symmetric] by simp
    with plain(2) show ?thesis by (simp add: unescapeByte_def)
  qed
qed

lemma escapeByte_hd: "escapeByte c @ x \<noteq> CHR 0x22 # y"
  by (auto simp: escapeByte_def Let_def)

lemma concat_escape_parse:
  "concat (map escapeByte a) @ CHR 0x22 # r = concat (map escapeByte b) @ CHR 0x22 # r' \<Longrightarrow>
   a = b \<and> r = r'"
proof (induction a arbitrary: b)
  case Nil
  then show ?case
  proof (cases b)
    case Nil
    with Nil.prems show ?thesis by simp
  next
    case (Cons d b')
    with Nil.prems have "escapeByte d @ (concat (map escapeByte b') @ CHR 0x22 # r') = CHR 0x22 # r"
      by simp
    then show ?thesis by (simp add: escapeByte_hd)
  qed
next
  case (Cons c a)
  show ?case
  proof (cases b)
    case Nil
    with Cons.prems have "escapeByte c @ (concat (map escapeByte a) @ CHR 0x22 # r) = CHR 0x22 # r'"
      by simp
    then show ?thesis by (simp add: escapeByte_hd)
  next
    case (Cons d b')
    with Cons.prems have e: "escapeByte c @ (concat (map escapeByte a) @ CHR 0x22 # r) =
                          escapeByte d @ (concat (map escapeByte b') @ CHR 0x22 # r')"
      by simp
    then have "unescapeByte (escapeByte c @ (concat (map escapeByte a) @ CHR 0x22 # r)) =
               unescapeByte (escapeByte d @ (concat (map escapeByte b') @ CHR 0x22 # r'))"
      by simp
    then have cd: "c = d" and
      rest: "concat (map escapeByte a) @ CHR 0x22 # r = concat (map escapeByte b') @ CHR 0x22 # r'"
      by (simp_all add: unescape_escape)
    from Cons.IH [OF rest] cd Cons show ?thesis by simp
  qed
qed

lemma jsonString_parse:
  "jsonString a @ r = jsonString b @ r' \<Longrightarrow> a = b \<and> r = r'"
  using concat_escape_parse [of a r b r'] by (simp add: jsonString_def)

lemma isDigit_char_of: "d < 10 \<Longrightarrow> isDigit (char_of (48 + d :: nat))"
  by (simp add: isDigit_def)

lemma digits_all: "c \<in> set (digits n) \<Longrightarrow> isDigit c"
proof (induction n arbitrary: c rule: digits.induct)
  case (1 n)
  show ?case
  proof (cases "n < 10")
    case True
    with "1.prems" show ?thesis
      by (subst (asm) digits.simps) (auto simp: isDigit_char_of)
  next
    case False
    with "1.prems" have "c \<in> set (digits (n div 10)) \<or> c = char_of (48 + n mod 10)"
      by (subst (asm) digits.simps) auto
    with False "1.IH" show ?thesis
      by (auto simp: isDigit_char_of)
  qed
qed

lemma digits_nonempty: "digits n \<noteq> []"
  by (subst digits.simps) simp

lemma undigits_snoc: "undigits (s @ [c]) = 10 * undigits s + (of_char c - 48)"
  by (simp add: undigits_def)

lemma undigits_digits: "undigits (digits n) = n"
proof (induction n rule: digits.induct)
  case (1 n)
  show ?case
  proof (cases "n < 10")
    case True
    then show ?thesis
      by (subst digits.simps) (simp add: undigits_def)
  next
    case False
    have "n mod 10 < 10" by simp
    then have "(48 + n mod 10) mod 256 = 48 + n mod 10" by simp
    with False "1.IH" show ?thesis
      by (subst digits.simps) (simp add: undigits_snoc)
  qed
qed

lemma takeWhile_digits:
  "\<not> isDigit c \<Longrightarrow> takeWhile isDigit (digits n @ c # r) = digits n"
  by (simp add: takeWhile_append2 digits_all)

lemma digits_parse:
  assumes "digits a @ c # r = digits b @ c' # r'" "\<not> isDigit c" "\<not> isDigit c'"
  shows "a = b \<and> c # r = c' # r'"
proof -
  from assms(1) have "takeWhile isDigit (digits a @ c # r) = takeWhile isDigit (digits b @ c' # r')"
    by simp
  with assms(2,3) have d: "digits a = digits b" by (simp add: takeWhile_digits)
  then have "undigits (digits a) = undigits (digits b)" by simp
  then have "a = b" by (simp add: undigits_digits)
  with assms(1) d show ?thesis by simp
qed

lemma digits_hd: "digits n = h # t \<Longrightarrow> isDigit h"
  using digits_all [of h n] by simp

lemma Itoa_parse:
  assumes "Itoa a @ c # r = Itoa b @ c' # r'" "\<not> isDigit c" "\<not> isDigit c'"
  shows "a = b \<and> c # r = c' # r'"
proof -
  have minus: "\<not> isDigit CHR ''-''" by (simp add: isDigit_def)
  have nohd: "\<And>n t x. digits n @ x \<noteq> CHR ''-'' # t"
  proof
    fix n t x assume h: "digits n @ x = CHR ''-'' # t"
    obtain d ds where "digits n = d # ds" using digits_nonempty [of n] by (cases "digits n") auto
    with h digits_hd [of n d ds] minus show False by simp
  qed
  consider "a < 0" "b < 0" | "a < 0" "\<not> b < 0" | "\<not> a < 0" "b < 0" | "\<not> a < 0" "\<not> b < 0"
    by blast
  then show ?thesis
  proof cases
    case 1
    with assms(1) have "digits (nat (- a)) @ c # r = digits (nat (- b)) @ c' # r'"
      by (simp add: Itoa_def)
    from digits_parse [OF this assms(2,3)] 1 show ?thesis by auto
  next
    case 2
    with assms(1) have "digits (nat b) @ c' # r' = CHR ''-'' # (digits (nat (- a)) @ c # r)"
      by (simp add: Itoa_def)
    with nohd show ?thesis by blast
  next
    case 3
    with assms(1) have "digits (nat a) @ c # r = CHR ''-'' # (digits (nat (- b)) @ c' # r')"
      by (simp add: Itoa_def)
    with nohd show ?thesis by blast
  next
    case 4
    with assms(1) have "digits (nat a) @ c # r = digits (nat b) @ c' # r'"
      by (simp add: Itoa_def)
    from digits_parse [OF this assms(2,3)] 4 show ?thesis by auto
  qed
qed

lemma not_digit_sep: "\<not> isDigit CHR '',''" "\<not> isDigit CHR ''}''"
  by (simp_all add: isDigit_def)


lemma jsonKey_append_eq [simp]: "jsonKey k @ x = jsonKey k @ y \<longleftrightarrow> x = y"
  by simp

lemma marshalSource_inj: "marshalSource x = marshalSource y \<Longrightarrow> x = y"
proof -
  assume "marshalSource x = marshalSource y"
  then have e1: "jsonString (source.IP x) @ '','' @ jsonKey ''Tag'' @ jsonString (source.Tag x) @ '','' @ jsonKey ''GUID'' @ jsonString (source.GUID x) @ ''}'' =
      jsonString (source.IP y) @ '','' @ jsonKey ''Tag'' @ jsonString (source.Tag y) @ '','' @ jsonKey ''GUID'' @ jsonString (source.GUID y) @ ''}''"
    by (simp add: marshalSource_def)
  from jsonString_parse [OF e1]
  have f1: "source.IP x = source.IP y" and
    e2: "jsonString (source.Tag x) @ '','' @ jsonKey ''GUID'' @ jsonString (source.GUID x) @ ''}'' =
      jsonString (source.Tag y) @ '','' @ jsonKey ''GUID'' @ jsonString (source.GUID y) @ ''}''"
    by simp_all
  from jsonString_parse [OF e2]
  have f2: "source.Tag x = source.Tag y" and
    e3: "jsonString (source.GUID x) @ ''}'' =
      jsonString (source.GUID y) @ ''}''"
    by simp_all
  from jsonString_parse [OF e3] have f3: "source.GUID x = source.GUID y" by simp
  from f1 f2 f3 show "x = y" by simp
qed

lemma marshalDestination_inj: "marshalDestination x = marshalDestination y \<Longrightarrow> x = y"
proof -
  assume "marshalDestination x = marshalDestination y"
  then have e1: "jsonString (destination.IP x) @ '','' @ jsonKey ''StartPort'' @ Itoa (StartPort x) @ CHR '','' # (jsonKey ''EndPort'' @ Itoa (EndPort x) @ CHR '','' # (jsonKey ''GUID'' @ jsonString (destination.GUID x) @ '','' @ jsonKey ''SourceGUID'' @ jsonString (SourceGUID x) @ '','' @ jsonKey ''Protocol'' @ jsonString (destination.Protocol x) @ '','' @ jsonKey ''SourceTag'' @ jsonString (SourceTag x) @ ''}'')) =
      jsonString (destination.IP y) @ '','' @ jsonKey ''StartPort'' @ Itoa (StartPort y) @ CHR '','' # (jsonKey ''EndPort'' @ Itoa (EndPort y) @ CHR '','' # (jsonKey ''GUID'' @ jsonString (destination.GUID y) @ '','' @ jsonKey ''SourceGUID'' @ jsonString (SourceGUID y) @ '','' @ jsonKey ''Protocol'' @ jsonString (destination.Protocol y) @ '','' @ jsonKey ''SourceTag'' @ jsonString (SourceTag y) @ ''}''))"
    by (simp add: marshalDestination_def)
  from jsonString_parse [OF e1]
  have f1: "destination.IP x = destination.IP y" and
    e2: "Itoa (StartPort x) @ CHR '','' # (jsonKey ''EndPort'' @ Itoa (EndPort x) @ CHR '','' # (jsonKey ''GUID'' @ jsonString (destination.GUID x) @ '','' @ jsonKey ''SourceGUID'' @ jsonString (SourceGUID x) @ '','' @ jsonKey ''Protocol'' @ jsonString (destination.Protocol x) @ '','' @ jsonKey ''SourceTag'' @ jsonString (SourceTag x) @ ''}'')) =
      Itoa (StartPort y) @ CHR '','' # (jsonKey ''EndPort'' @ Itoa (EndPort y) @ CHR '','' # (jsonKey ''GUID'' @ jsonString (destination.GUID y) @ '','' @ jsonKey ''SourceGUID'' @ jsonString (SourceGUID y) @ '','' @ jsonKey ''Protocol'' @ jsonString (destination.Protocol y) @ '','' @ jsonKey ''SourceTag'' @ jsonString (SourceTag y) @ ''}''))"
    by simp_all
  from Itoa_parse [OF e2 not_digit_sep(1) not_digit_sep(1)]
  have f2: "StartPort x = StartPort y" and
    e3: "Itoa (EndPort x) @ CHR '','' # (jsonKey ''GUID'' @ jsonString (destination.GUID x) @ '','' @ jsonKey ''SourceGUID'' @ jsonString (SourceGUID x) @ '','' @ jsonKey ''Protocol'' @ jsonString (destination.Protocol x) @ '','' @ jsonKey ''SourceTag'' @ jsonString (SourceTag x) @ ''}'') =
      Itoa (EndPort y) @ CHR '','' # (jsonKey ''GUID'' @ jsonString (destination.GUID y) @ '','' @ jsonKey ''SourceGUID'' @ jsonString (SourceGUID y) @ '','' @ jsonKey ''Protocol'' @ jsonString (destination.Protocol y) @ '','' @ jsonKey ''SourceTag'' @ jsonString (SourceTag y) @ ''}'')"
    by simp_all
  from Itoa_parse [OF e3 not_digit_sep(1) not_digit_sep(1)]
  have f3: "EndPort x = EndPort y" and
    e4: "jsonString (destination.GUID x) @ '','' @ jsonKey ''SourceGUID'' @ jsonString (SourceGUID x) @ '','' @ jsonKey ''Protocol'' @ jsonString (destination.Protocol x) @ '','' @ jsonKey ''SourceTag'' @ jsonString (SourceTag x) @ ''}'' =
      jsonString (destination.GUID y) @ '','' @ jsonKey ''SourceGUID'' @ jsonString (SourceGUID y) @ '','' @ jsonKey ''Protocol'' @ jsonString (destination.Protocol y) @ '','' @ jsonKey ''SourceTag'' @ jsonString (SourceTag y) @ ''}''"
    by simp_all
  from jsonString_parse [OF e4]
  have f4: "destination.GUID x = destination.GUID y" and
    e5: "jsonString (SourceGUID x) @ '','' @ jsonKey ''Protocol'' @ jsonString (destination.Protocol x) @ '','' @ jsonKey ''SourceTag'' @ jsonString (SourceTag x) @ ''}'' =
      jsonString (SourceGUID y) @ '','' @ jsonKey ''Protocol'' @ jsonString (destination.Protocol y) @ '','' @ jsonKey ''SourceTag'' @ jsonString (SourceTag y) @ ''}''"
    by simp_all
  from jsonString_parse [OF e5]
  have f5: "SourceGUID x = SourceGUID y" and
    e6: "jsonString (destination.Protocol x) @ '','' @ jsonKey ''SourceTag'' @ jsonString (SourceTag x) @ ''}'' =
      jsonString (destination.Protocol y) @ '','' @ jsonKey ''SourceTag'' @ jsonString (SourceTag y) @ ''}''"
    by simp_all
  from jsonString_parse [OF e6]
  have f6: "destination.Protocol x = destination.Protocol y" and
    e7: "jsonString (SourceTag x) @ ''}'' =
      jsonString (SourceTag y) @ ''}''"
    by simp_all
  from jsonString_parse [OF e7] have f7: "SourceTag x = SourceTag y" by simp
  from f1 f2 f3 f4 f5 f6 f7 show "x = y" by simp
qed

lemma marshalEgress_inj: "marshalEgress x = marshalEgress y \<Longrightarrow> x = y"
proof -
  assume "marshalEgress x = marshalEgress y"
  then have e1: "jsonString (SourceIP x) @ '','' @ jsonKey ''Protocol'' @ jsonString (egress.Protocol x) @ '','' @ jsonKey ''IpStart'' @ jsonString (IpStart x) @ '','' @ jsonKey ''IpEnd'' @ jsonString (IpEnd x) @ '','' @ jsonKey ''IcmpType'' @ Itoa (IcmpType x) @ CHR '','' # (jsonKey ''IcmpCode'' @ Itoa (IcmpCode x) @ CHR '','' # (jsonKey ''PortStart'' @ Itoa (PortStart x) @ CHR '','' # (jsonKey ''PortEnd'' @ Itoa (PortEnd x) @ [CHR ''}'']))) =
      jsonString (SourceIP y) @ '','' @ jsonKey ''Protocol'' @ jsonString (egress.Protocol y) @ '','' @ jsonKey ''IpStart'' @ jsonString (IpStart y) @ '','' @ jsonKey ''IpEnd'' @ jsonString (IpEnd y) @ '','' @ jsonKey ''IcmpType'' @ Itoa (IcmpType y) @ CHR '','' # (jsonKey ''IcmpCode'' @ Itoa (IcmpCode y) @ CHR '','' # (jsonKey ''PortStart'' @ Itoa (PortStart y) @ CHR '','' # (jsonKey ''PortEnd'' @ Itoa (PortEnd y) @ [CHR ''}''])))"
    by (simp add: marshalEgress_def)
  from jsonString_parse [OF e1]
  have f1: "SourceIP x = SourceIP y" and
    e2: "jsonString (egress.Protocol x) @ '','' @ jsonKey ''IpStart'' @ jsonString (IpStart x) @ '','' @ jsonKey ''IpEnd'' @ jsonString (IpEnd x) @ '','' @ jsonKey ''IcmpType'' @ Itoa (IcmpType x) @ CHR '','' # (jsonKey ''IcmpCode'' @ Itoa (IcmpCode x) @ CHR '','' # (jsonKey ''PortStart'' @ Itoa (PortStart x) @ CHR '','' # (jsonKey ''PortEnd'' @ Itoa (PortEnd x) @ [CHR ''}'']))) =
      jsonString (egress.Protocol y) @ '','' @ jsonKey ''IpStart'' @ jsonString (IpStart y) @ '','' @ jsonKey ''IpEnd'' @ jsonString (IpEnd y) @ '','' @ jsonKey ''IcmpType'' @ Itoa (IcmpType y) @ CHR '','' # (jsonKey ''IcmpCode'' @ Itoa (IcmpCode y) @ CHR '','' # (jsonKey ''PortStart'' @ Itoa (PortStart y) @ CHR '','' # (jsonKey ''PortEnd'' @ Itoa (PortEnd y) @ [CHR ''}''])))"
    by simp_all
  from jsonString_parse [OF e2]
  have f2: "egress.Protocol x = egress.Protocol y" and
    e3: "jsonString (IpStart x) @ '','' @ jsonKey ''IpEnd'' @ jsonString (IpEnd x) @ '','' @ jsonKey ''IcmpType'' @ Itoa (IcmpType x) @ CHR '','' # (jsonKey ''IcmpCode'' @ Itoa (IcmpCode x) @ CHR '','' # (jsonKey ''PortStart'' @ Itoa (PortStart x) @ CHR '','' # (jsonKey ''PortEnd'' @ Itoa (PortEnd x) @ [CHR ''}'']))) =
      jsonString (IpStart y) @ '','' @ jsonKey ''IpEnd'' @ jsonString (IpEnd y) @ '','' @ jsonKey ''IcmpType'' @ Itoa (IcmpType y) @ CHR '','' # (jsonKey ''IcmpCode'' @ Itoa (IcmpCode y) @ CHR '','' # (jsonKey ''PortStart'' @ Itoa (PortStart y) @ CHR '','' # (jsonKey ''PortEnd'' @ Itoa (PortEnd y) @ [CHR ''}''])))"
    by simp_all
  from jsonString_parse [OF e3]
  have f3: "IpStart x = IpStart y" and
    e4: "jsonString (IpEnd x) @ '','' @ jsonKey ''IcmpType'' @ Itoa (IcmpType x) @ CHR '','' # (jsonKey ''IcmpCode'' @ Itoa (IcmpCode x) @ CHR '','' # (jsonKey ''PortStart'' @ Itoa (PortStart x) @ CHR '','' # (jsonKey ''PortEnd'' @ Itoa (PortEnd x) @ [CHR ''}'']))) =
      jsonString (IpEnd y) @ '','' @ jsonKey ''IcmpType'' @ Itoa (IcmpType y) @ CHR '','' # (jsonKey ''IcmpCode'' @ Itoa (IcmpCode y) @ CHR '','' # (jsonKey ''PortStart'' @ Itoa (PortStart y) @ CHR '','' # (jsonKey ''PortEnd'' @ Itoa (PortEnd y) @ [CHR ''}''])))"
    by simp_all
  from jsonString_parse [OF e4]
  have f4: "IpEnd x = IpEnd y" and
    e5: "Itoa (IcmpType x) @ CHR '','' # (jsonKey ''IcmpCode'' @ Itoa (IcmpCode x) @ CHR '','' # (jsonKey ''PortStart'' @ Itoa (PortStart x) @ CHR '','' # (jsonKey ''PortEnd'' @ Itoa (PortEnd x) @ [CHR ''}'']))) =
      Itoa (IcmpType y) @ CHR '','' # (jsonKey ''IcmpCode'' @ Itoa (IcmpCode y) @ CHR '','' # (jsonKey ''PortStart'' @ Itoa (PortStart y) @ CHR '','' # (jsonKey ''PortEnd'' @ Itoa (PortEnd y) @ [CHR ''}''])))"
    by simp_all
  from Itoa_parse [OF e5 not_digit_sep(1) not_digit_sep(1)]
  have f5: "IcmpType x = IcmpType y" and
    e6: "Itoa (IcmpCode x) @ CHR '','' # (jsonKey ''PortStart'' @ Itoa (PortStart x) @ CHR '','' # (jsonKey ''PortEnd'' @ Itoa (PortEnd x) @ [CHR ''}''])) =
      Itoa (IcmpCode y) @ CHR '','' # (jsonKey ''PortStart'' @ Itoa (PortStart y) @ CHR '','' # (jsonKey ''PortEnd'' @ Itoa (PortEnd y) @ [CHR ''}'']))"
    by simp_all
  from Itoa_parse [OF e6 not_digit_sep(1) not_digit_sep(1)]
  have f6: "IcmpCode x = IcmpCode y" and
    e7: "Itoa (PortStart x) @ CHR '','' # (jsonKey ''PortEnd'' @ Itoa (PortEnd x) @ [CHR ''}'']) =
      Itoa (PortStart y) @ CHR '','' # (jsonKey ''PortEnd'' @ Itoa (PortEnd y) @ [CHR ''}''])"
    by simp_all
  from Itoa_parse [OF e7 not_digit_sep(1) not_digit_sep(1)]
  have f7: "PortStart x = PortStart y" and
    e8: "Itoa (PortEnd x) @ [CHR ''}''] =
      Itoa (PortEnd y) @ [CHR ''}'']"
    by simp_all
  from Itoa_parse [OF e8 not_digit_sep(2) not_digit_sep(2)] have f8: "PortEnd x = PortEnd y" by simp
  from f1 f2 f3 f4 f5 f6 f7 f8 show "x = y" by simp
qed

lemma marshalIngress_inj: "marshalIngress x = marshalIngress y \<Longrightarrow> x = y"
proof -
  assume "marshalIngress x = marshalIngress y"
  then have e1: "jsonString (IngressTag x) @ '','' @ jsonKey ''IP'' @ jsonString (ingress.IP x) @ '','' @ jsonKey ''Protocol'' @ jsonString (ingress.Protocol x) @ '','' @ jsonKey ''Port'' @ Itoa (Port x) @ [CHR ''}''] =
      jsonString (IngressTag y) @ '','' @ jsonKey ''IP'' @ jsonString (ingress.IP y) @ '','' @ jsonKey ''Protocol'' @ jsonString (ingress.Protocol y) @ '','' @ jsonKey ''Port'' @ Itoa (Port y) @ [CHR ''}'']"
    by (simp add: marshalIngress_def)
  from jsonString_parse [OF e1]
  have f1: "IngressTag x = IngressTag y" and
    e2: "jsonString (ingress.IP x) @ '','' @ jsonKey ''Protocol'' @ jsonString (ingress.Protocol x) @ '','' @ jsonKey ''Port'' @ Itoa (Port x) @ [CHR ''}''] =
      jsonString (ingress.IP y) @ '','' @ jsonKey ''Protocol'' @ jsonString (ingress.Protocol y) @ '','' @ jsonKey ''Port'' @ Itoa (Port y) @ [CHR ''}'']"
    by simp_all
  from jsonString_parse [OF e2]
  have f2: "ingress.IP x = ingress.IP y" and
    e3: "jsonString (ingress.Protocol x) @ '','' @ jsonKey ''Port'' @ Itoa (Port x) @ [CHR ''}''] =
      jsonString (ingress.Protocol y) @ '','' @ jsonKey ''Port'' @ Itoa (Port y) @ [CHR ''}'']"
    by simp_all
  from jsonString_parse [OF e3]
  have f3: "ingress.Protocol x = ingress.Protocol y" and
    e4: "Itoa (Port x) @ [CHR ''}''] =
      Itoa (Port y) @ [CHR ''}'']"
    by simp_all
  from Itoa_parse [OF e4 not_digit_sep(2) not_digit_sep(2)] have f4: "Port x = Port y" by simp
  from f1 f2 f3 f4 show "x = y" by simp
qed

subsection \<open>What the loops compute\<close>

lemma policyBody_eq:
  "policyBody c p (v, cps) =
     ((if container.AppID c = Source.ID (Policy.Source p) \<and> v (container.IP c) = None
       then v(container.IP c \<mapsto> True) else v),
      cps\<lparr>containerPolicySet.Source := containerPolicySet.Source cps @
            (if container.AppID c = Source.ID (Policy.Source p) \<and> v (container.IP c) = None
             then [sourceOf c p] else []),
          containerPolicySet.Destination := containerPolicySet.Destination cps @
            (if container.AppID c = Destination.ID (Policy.Destination p)
             then [destinationOf c p] else [])\<rparr>)"
  by (simp add: policyBody_def)

lemma policiesLoop_eq:
  "policiesLoop c ps (v, cps) =
     ((if v (container.IP c) = None \<and>
          filter (\<lambda>p. container.AppID c = Source.ID (Policy.Source p)) ps \<noteq> []
       then v(container.IP c \<mapsto> True) else v),
      cps\<lparr>containerPolicySet.Source := containerPolicySet.Source cps @
            (if v (container.IP c) = None
             then map (sourceOf c)
                    (take 1 (filter (\<lambda>p. container.AppID c = Source.ID (Policy.Source p)) ps))
             else []),
          containerPolicySet.Destination := containerPolicySet.Destination cps @
            map (destinationOf c)
              (filter (\<lambda>p. container.AppID c = Destination.ID (Policy.Destination p)) ps)\<rparr>)"
proof (induction ps arbitrary: v cps)
  case Nil
  show ?case by simp
next
  case (Cons p ps)
  show ?case
    by (auto simp: policyBody_eq Cons.IH)
qed

lemma egressLoop_Inr:
  "egressLoop c es cps = Inr cps' \<Longrightarrow>
     cps' = cps\<lparr>Egress := Egress cps @
              map (\<lambda>e. egressOf c e (hd (IPRanges (EgressPolicy.Destination e))))
                (filter (egressApplies c) es)\<rparr> \<and>
     (\<forall>e\<in>set es. egressApplies c e \<longrightarrow> IPRanges (EgressPolicy.Destination e) \<noteq> [])"
proof (induction es arbitrary: cps)
  case Nil
  then show ?case by simp
next
  case (Cons e es)
  show ?case
  proof (cases "egressApplies c e")
    case False
    with Cons.prems have "egressLoop c es cps = Inr cps'" by simp
    from Cons.IH [OF this] False show ?thesis by simp
  next
    case True
    with Cons.prems obtain r rs where r: "IPRanges (EgressPolicy.Destination e) = r # rs"
      by (cases "IPRanges (EgressPolicy.Destination e)") auto
    with True Cons.prems
    have "egressLoop c es (cps\<lparr>Egress := Egress cps @ [egressOf c e r]\<rparr>) = Inr cps'"
      by simp
    from Cons.IH [OF this] True r show ?thesis by simp
  qed
qed

lemma egressLoop_total:
  "(\<forall>e\<in>set es. egressApplies c e \<longrightarrow> IPRanges (EgressPolicy.Destination e) \<noteq> []) \<Longrightarrow>
   \<exists>cps'. egressLoop c es cps = Inr cps'"
  by (induction es arbitrary: cps) (auto split: list.splits)

lemma egressLoop_panics:
  "e \<in> set es \<Longrightarrow> egressApplies c e \<Longrightarrow> IPRanges (EgressPolicy.Destination e) = [] \<Longrightarrow>
   egressLoop c es cps = Inl IndexOutOfRange"
  by (induction es arbitrary: cps) (auto split: list.splits)

lemma portsLoop_None:
  "portsLoop tag c ports cps = (cps', None) \<Longrightarrow>
     (\<forall>port\<in>set ports. \<exists>n. Atoi (TrimSpace port) = Inr n) \<and>
     cps' = cps\<lparr>Ingress := Ingress cps @
              map (\<lambda>port. ingressOf tag c (projr (Atoi (TrimSpace port)))) ports\<rparr>"
proof (induction ports arbitrary: cps)
  case Nil
  then show ?case by simp
next
  case (Cons port ports)
  from Cons.prems obtain n where n: "Atoi (TrimSpace port) = Inr n"
    by (cases "Atoi (TrimSpace port)") auto
  with Cons.prems
  have "portsLoop tag c ports (cps\<lparr>Ingress := Ingress cps @ [ingressOf tag c n]\<rparr>) = (cps', None)"
    by simp
  from Cons.IH [OF this] n show ?case by simp
qed

lemma portsLoop_Some:
  "portsLoop tag c ports cps = (cps', Some err) \<Longrightarrow>
     (\<exists>port\<in>set ports. \<exists>ne. Atoi (TrimSpace port) = Inl ne \<and> err = ConvertingPort ne) \<and>
     containerPolicySet.Source cps' = containerPolicySet.Source cps \<and>
     containerPolicySet.Destination cps' = containerPolicySet.Destination cps \<and>
     Egress cps' = Egress cps"
proof (induction ports arbitrary: cps)
  case Nil
  then show ?case by simp
next
  case (Cons port ports)
  show ?case
  proof (cases "Atoi (TrimSpace port)")
    case (Inl ne)
    with Cons.prems show ?thesis by auto
  next
    case (Inr n)
    with Cons.prems
    have "portsLoop tag c ports (cps\<lparr>Ingress := Ingress cps @ [ingressOf tag c n]\<rparr>) =
            (cps', Some err)"
      by simp
    from Cons.IH [OF this] show ?thesis by auto
  qed
qed

lemma portsLoop_fails:
  "port \<in> set ports \<Longrightarrow> Atoi (TrimSpace port) = Inl ne \<Longrightarrow>
   \<exists>cps' ne'. portsLoop tag c ports cps = (cps', Some (ConvertingPort ne'))"
  by (induction ports arbitrary: cps) (auto split: sum.splits)

lemma portsLoop_succeeds:
  "(\<forall>port\<in>set ports. \<exists>n. Atoi (TrimSpace port) = Inr n) \<Longrightarrow>
   \<exists>cps'. portsLoop tag c ports cps = (cps', None)"
  by (induction ports arbitrary: cps) (auto split: sum.splits)


lemma ingressBlock_None:
  "ingressBlock en tag c cps = (cps', None) \<Longrightarrow>
     cps' = cps\<lparr>Ingress := Ingress cps @
              (if en \<and> container.Ports c \<noteq> []
               then map (\<lambda>port. ingressOf tag c (projr (Atoi (TrimSpace port))))
                      (Split (container.Ports c) CHR '','')
               else [])\<rparr> \<and>
     (en \<and> container.Ports c \<noteq> [] \<longrightarrow>
        (\<forall>port\<in>set (Split (container.Ports c) CHR '',''). \<exists>n. Atoi (TrimSpace port) = Inr n))"
  by (auto simp: ingressBlock_def split: if_splits dest!: portsLoop_None)

lemma ingressBlock_Some:
  "ingressBlock en tag c cps = (cps', Some err) \<Longrightarrow>
     en \<and> container.Ports c \<noteq> [] \<and>
     (\<exists>port\<in>set (Split (container.Ports c) CHR '','').
        \<exists>ne. Atoi (TrimSpace port) = Inl ne \<and> err = ConvertingPort ne) \<and>
     containerPolicySet.Source cps' = containerPolicySet.Source cps \<and>
     containerPolicySet.Destination cps' = containerPolicySet.Destination cps \<and>
     Egress cps' = Egress cps"
  by (auto simp: ingressBlock_def split: if_splits dest!: portsLoop_Some)

lemma find_pairs:
  "find (\<lambda>(c', p). f c' = ip) (map (Pair c) M @ rest) =
     (if f c = ip \<and> M \<noteq> [] then Some (c, hd M) else find (\<lambda>(c', p). f c' = ip) rest)"
proof (cases "f c = ip")
  case True
  then show ?thesis by (cases M) auto
next
  case False
  then have "find (\<lambda>(c', p). f c' = ip) (map (Pair c) M @ rest) =
               find (\<lambda>(c', p). f c' = ip) rest"
    by (induction M) auto
  with False show ?thesis by simp
qed

lemma filter_product_Cons:
  "filter (\<lambda>(c, p). Q c p) (List.product (c # cs) ps) =
     map (Pair c) (filter (Q c) ps) @ filter (\<lambda>(c, p). Q c p) (List.product cs ps)"
  by (simp add: filter_map comp_def)

lemma containersLoop_step:
  assumes "containersLoop en ps es tag (c # cs) (v, cps) = Inr (cps', err)"
  shows "\<exists>cps2 cps3 e3.
    egressLoop c es (snd (policiesLoop c ps (v, cps))) = Inr cps2 \<and>
    ingressBlock en tag c cps2 = (cps3, e3) \<and>
    (e3 \<noteq> None \<longrightarrow> cps' = cps3 \<and> err = e3) \<and>
    (e3 = None \<longrightarrow>
       containersLoop en ps es tag cs (fst (policiesLoop c ps (v, cps)), cps3) = Inr (cps', err))"
proof -
  obtain v1 cps1 where p: "policiesLoop c ps (v, cps) = (v1, cps1)"
    by (cases "policiesLoop c ps (v, cps)")
  from assms p obtain cps2 where e: "egressLoop c es cps1 = Inr cps2"
    by (cases "egressLoop c es cps1") auto
  obtain cps3 e3 where i: "ingressBlock en tag c cps2 = (cps3, e3)"
    by (cases "ingressBlock en tag c cps2")
  have "e3 \<noteq> None \<longrightarrow> cps' = cps3 \<and> err = e3"
    using assms p e i by (cases e3) auto
  moreover have "e3 = None \<longrightarrow>
       containersLoop en ps es tag cs (fst (policiesLoop c ps (v, cps)), cps3) = Inr (cps', err)"
    using assms p e i by auto
  ultimately show ?thesis using p e i by auto
qed

lemma containersLoop_Source:
  "containersLoop en ps es tag cs (v, cps) = Inr (cps', err) \<Longrightarrow>
   \<exists>new. containerPolicySet.Source cps' = containerPolicySet.Source cps @ new \<and>
     distinct (map source.IP new) \<and>
     (\<forall>s\<in>set new. v (source.IP s) = None \<and>
        (\<exists>c p. find (\<lambda>(c, p). container.IP c = source.IP s)
                 (filter (\<lambda>(c, p). isSource c p) (List.product cs ps)) = Some (c, p) \<and>
               s = sourceOf c p)) \<and>
     (err = None \<longrightarrow>
        (\<forall>c\<in>set cs. \<forall>p\<in>set ps. isSource c p \<and> v (container.IP c) = None \<longrightarrow>
           container.IP c \<in> source.IP ` set new))"
proof (induction cs arbitrary: v cps)
  case Nil
  then show ?case by simp
next
  case (Cons c cs)
  define M where "M = filter (isSource c) ps"
  define first where
    "first = (if v (container.IP c) = None then map (sourceOf c) (take 1 M) else [])"
  define v1 where
    "v1 = (if v (container.IP c) = None \<and> M \<noteq> [] then v(container.IP c \<mapsto> True) else v)"
  have pl: "fst (policiesLoop c ps (v, cps)) = v1"
    "containerPolicySet.Source (snd (policiesLoop c ps (v, cps))) =
       containerPolicySet.Source cps @ first"
    by (simp_all add: policiesLoop_eq v1_def first_def M_def)
  have first_cases: "first = [] \<or> (first = [sourceOf c (hd M)] \<and> M \<noteq> [] \<and> v (container.IP c) = None)"
    by (cases M) (auto simp: first_def)
  have first_nonempty: "v (container.IP c) = None \<Longrightarrow> M \<noteq> [] \<Longrightarrow> first = [sourceOf c (hd M)]"
    by (cases M) (auto simp: first_def)
  have ip_first: "\<And>s. s \<in> set first \<Longrightarrow> source.IP s = container.IP c"
    using first_cases by (auto simp: sourceOf_def)
  have fp: "filter (\<lambda>(c, p). isSource c p) (List.product (c # cs) ps) =
              map (Pair c) M @ filter (\<lambda>(c, p). isSource c p) (List.product cs ps)"
    unfolding M_def by (rule filter_product_Cons)
  have first_ok: "\<forall>s\<in>set first. v (source.IP s) = None \<and>
        (\<exists>c' p. find (\<lambda>(c, p). container.IP c = source.IP s)
                 (filter (\<lambda>(c, p). isSource c p) (List.product (c # cs) ps)) = Some (c', p) \<and>
               s = sourceOf c' p)"
  proof
    fix s assume s: "s \<in> set first"
    with first_cases have f: "first = [sourceOf c (hd M)]" and m: "M \<noteq> []"
      and vn: "v (container.IP c) = None" by auto
    from s f have se: "s = sourceOf c (hd M)" by simp
    then have ip: "source.IP s = container.IP c" by (simp add: sourceOf_def)
    have "find (\<lambda>(c', p). container.IP c' = container.IP c)
            (map (Pair c) M @ filter (\<lambda>(c, p). isSource c p) (List.product cs ps)) =
          Some (c, hd M)"
      using m by (simp only: find_pairs) simp
    then have "find (\<lambda>(c', p). container.IP c' = source.IP s)
            (filter (\<lambda>(c, p). isSource c p) (List.product (c # cs) ps)) = Some (c, hd M)"
      by (simp only: fp ip)
    with se vn ip show "v (source.IP s) = None \<and>
        (\<exists>c' p. find (\<lambda>(c, p). container.IP c = source.IP s)
                 (filter (\<lambda>(c, p). isSource c p) (List.product (c # cs) ps)) = Some (c', p) \<and>
               s = sourceOf c' p)"
      by simp
  qed
  from containersLoop_step [OF Cons.prems] obtain cps2 cps3 e3 where
    e: "egressLoop c es (snd (policiesLoop c ps (v, cps))) = Inr cps2" and
    i: "ingressBlock en tag c cps2 = (cps3, e3)" and
    stop: "e3 \<noteq> None \<longrightarrow> cps' = cps3 \<and> err = e3" and
    go: "e3 = None \<longrightarrow>
       containersLoop en ps es tag cs (fst (policiesLoop c ps (v, cps)), cps3) = Inr (cps', err)"
    by blast
  from egressLoop_Inr [OF e]
  have s2: "containerPolicySet.Source cps2 = containerPolicySet.Source cps @ first"
    using pl(2) by simp
  show ?case
  proof (cases e3)
    case (Some x)
    with i have "containerPolicySet.Source cps3 = containerPolicySet.Source cps2"
      by (auto dest: ingressBlock_Some)
    with stop Some s2 have src: "containerPolicySet.Source cps' = containerPolicySet.Source cps @ first"
      and "err \<noteq> None" by auto
    have df: "distinct (map source.IP first)" using first_cases by auto
    show ?thesis
    proof (intro exI [of _ first] conjI)
      show "containerPolicySet.Source cps' = containerPolicySet.Source cps @ first" by (rule src)
      show "distinct (map source.IP first)" by (rule df)
      show "\<forall>s\<in>set first. v (source.IP s) = None \<and>
        (\<exists>c' p. find (\<lambda>(c, p). container.IP c = source.IP s)
                 (filter (\<lambda>(c, p). isSource c p) (List.product (c # cs) ps)) = Some (c', p) \<and>
               s = sourceOf c' p)" by (rule first_ok)
      show "err = None \<longrightarrow>
        (\<forall>c\<in>set (c # cs). \<forall>p\<in>set ps. isSource c p \<and> v (container.IP c) = None \<longrightarrow>
           container.IP c \<in> source.IP ` set first)" using \<open>err \<noteq> None\<close> by blast
    qed
  next
    case None
    with i have s3: "containerPolicySet.Source cps3 = containerPolicySet.Source cps2"
      by (auto dest: ingressBlock_None)
    from go None pl(1)
    have "containersLoop en ps es tag cs (v1, cps3) = Inr (cps', err)" by simp
    from Cons.IH [OF this] obtain new where n:
      "containerPolicySet.Source cps' = containerPolicySet.Source cps3 @ new \<and>
     distinct (map source.IP new) \<and>
     (\<forall>s\<in>set new. v1 (source.IP s) = None \<and>
        (\<exists>c p. find (\<lambda>(c, p). container.IP c = source.IP s)
                 (filter (\<lambda>(c, p). isSource c p) (List.product cs ps)) = Some (c, p) \<and>
               s = sourceOf c p)) \<and>
     (err = None \<longrightarrow>
        (\<forall>c\<in>set cs. \<forall>p\<in>set ps. isSource c p \<and> v1 (container.IP c) = None \<longrightarrow>
           container.IP c \<in> source.IP ` set new))" ..
    then have
      n1: "containerPolicySet.Source cps' = containerPolicySet.Source cps3 @ new" and
      n2: "distinct (map source.IP new)" and
      n3: "\<forall>s\<in>set new. v1 (source.IP s) = None \<and>
        (\<exists>c p. find (\<lambda>(c, p). container.IP c = source.IP s)
                 (filter (\<lambda>(c, p). isSource c p) (List.product cs ps)) = Some (c, p) \<and>
               s = sourceOf c p)" and
      n4: "err = None \<longrightarrow>
        (\<forall>c\<in>set cs. \<forall>p\<in>set ps. isSource c p \<and> v1 (container.IP c) = None \<longrightarrow>
           container.IP c \<in> source.IP ` set new)"
      by simp_all
    have v1_None: "\<And>x. v1 x = None \<Longrightarrow> v x = None"
      by (auto simp: v1_def split: if_splits)
    have v1_c: "v (container.IP c) = None \<Longrightarrow> M \<noteq> [] \<Longrightarrow> v1 (container.IP c) \<noteq> None"
      by (simp add: v1_def)
    have v1_other: "\<And>x. v x = None \<Longrightarrow> v1 x \<noteq> None \<Longrightarrow>
        x = container.IP c \<and> M \<noteq> [] \<and> v (container.IP c) = None"
      by (auto simp: v1_def split: if_splits)
    have new_skip: "\<And>s. s \<in> set new \<Longrightarrow> \<not> (container.IP c = source.IP s \<and> M \<noteq> [])"
    proof
      fix s assume s: "s \<in> set new" and h: "container.IP c = source.IP s \<and> M \<noteq> []"
      from s n3 have a: "v1 (source.IP s) = None" by simp
      then have "v (source.IP s) = None" by (rule v1_None)
      with h have vc: "v (container.IP c) = None" by simp
      from h have m: "M \<noteq> []" by simp
      from v1_c [OF vc m] have "v1 (container.IP c) \<noteq> None" .
      with a h show False by simp
    qed
    have A: "containerPolicySet.Source cps' = containerPolicySet.Source cps @ (first @ new)"
      using n1 s3 s2 by simp
    have B: "distinct (map source.IP (first @ new))"
    proof -
      have "source.IP ` set first \<inter> source.IP ` set new = {}"
      proof (rule ccontr)
        assume "source.IP ` set first \<inter> source.IP ` set new \<noteq> {}"
        then obtain s t where s: "s \<in> set first" and t: "t \<in> set new"
          and eq: "source.IP s = source.IP t" by auto
        from s first_cases have "M \<noteq> []" by auto
        moreover from s eq have "container.IP c = source.IP t" by (simp add: ip_first)
        ultimately show False using new_skip [OF t] by simp
      qed
      moreover have "distinct (map source.IP first)" using first_cases by auto
      ultimately show ?thesis using n2 by simp
    qed
    have C: "\<forall>s\<in>set (first @ new). v (source.IP s) = None \<and>
        (\<exists>c' p. find (\<lambda>(c, p). container.IP c = source.IP s)
                 (filter (\<lambda>(c, p). isSource c p) (List.product (c # cs) ps)) = Some (c', p) \<and>
               s = sourceOf c' p)"
    proof
      fix s assume "s \<in> set (first @ new)"
      then consider "s \<in> set first" | "s \<in> set new" by auto
      then show "v (source.IP s) = None \<and>
        (\<exists>c' p. find (\<lambda>(c, p). container.IP c = source.IP s)
                 (filter (\<lambda>(c, p). isSource c p) (List.product (c # cs) ps)) = Some (c', p) \<and>
               s = sourceOf c' p)"
      proof cases
        case 1
        with first_ok show ?thesis by (rule bspec)
      next
        case 2
        with n3 have a: "v1 (source.IP s) = None" and
          b: "\<exists>c p. find (\<lambda>(c, p). container.IP c = source.IP s)
                 (filter (\<lambda>(c, p). isSource c p) (List.product cs ps)) = Some (c, p) \<and>
               s = sourceOf c p" by simp_all
        from new_skip [OF 2]
        have "find (\<lambda>(c, p). container.IP c = source.IP s)
                (filter (\<lambda>(c, p). isSource c p) (List.product (c # cs) ps)) =
              find (\<lambda>(c, p). container.IP c = source.IP s)
                (filter (\<lambda>(c, p). isSource c p) (List.product cs ps))"
          by (simp only: fp find_pairs if_False)
        with b v1_None [OF a] show ?thesis by simp
      qed
    qed
    have D: "err = None \<longrightarrow>
        (\<forall>c0\<in>set (c # cs). \<forall>p\<in>set ps. isSource c0 p \<and> v (container.IP c0) = None \<longrightarrow>
           container.IP c0 \<in> source.IP ` set (first @ new))"
    proof (intro impI ballI)
      fix c0 p
      assume en: "err = None" and c0: "c0 \<in> set (c # cs)" and p: "p \<in> set ps"
        and h: "isSource c0 p \<and> v (container.IP c0) = None"
      show "container.IP c0 \<in> source.IP ` set (first @ new)"
      proof (cases "v1 (container.IP c0) = None")
        case True
        show ?thesis
        proof (cases "c0 = c")
          case True
          with p h have "M \<noteq> []" by (auto simp: M_def filter_empty_conv)
          with h True \<open>v1 (container.IP c0) = None\<close> show ?thesis by (simp add: v1_def)
        next
          case False
          with c0 have "c0 \<in> set cs" by simp
          with n4 en p h True have "container.IP c0 \<in> source.IP ` set new" by blast
          then show ?thesis by auto
        qed
      next
        case False
        with h v1_other [of "container.IP c0"]
        have "container.IP c0 = container.IP c \<and> M \<noteq> [] \<and> v (container.IP c) = None"
          by simp
        then have "first = [sourceOf c (hd M)]" "container.IP c0 = container.IP c"
          by (simp_all add: first_nonempty)
        then show ?thesis by (simp add: sourceOf_def)
      qed
    qed
    show ?thesis
      by (intro exI [of _ "first @ new"] conjI) (fact A B C D)+
  qed
qed

lemma containersLoop_rest:
  "containersLoop en ps es tag cs (v, cps) = Inr (cps', None) \<Longrightarrow>
     containerPolicySet.Destination cps' = containerPolicySet.Destination cps @
       concat (map (\<lambda>c. map (destinationOf c) (filter (isDestination c) ps)) cs) \<and>
     Egress cps' = Egress cps @
       concat (map (\<lambda>c. map (\<lambda>e. egressOf c e (hd (IPRanges (EgressPolicy.Destination e))))
                          (filter (egressApplies c) es)) cs) \<and>
     Ingress cps' = Ingress cps @
       concat (map (\<lambda>c. if en \<and> container.Ports c \<noteq> []
                        then map (\<lambda>port. ingressOf tag c (projr (Atoi (TrimSpace port))))
                               (Split (container.Ports c) CHR '','')
                        else []) cs) \<and>
     (\<forall>c\<in>set cs. \<forall>e\<in>set es. egressApplies c e \<longrightarrow>
        IPRanges (EgressPolicy.Destination e) \<noteq> []) \<and>
     (\<forall>c\<in>set cs. en \<and> container.Ports c \<noteq> [] \<longrightarrow>
        (\<forall>port\<in>set (Split (container.Ports c) CHR '',''). \<exists>n. Atoi (TrimSpace port) = Inr n))"
proof (induction cs arbitrary: v cps)
  case Nil
  then show ?case by simp
next
  case (Cons c cs)
  from containersLoop_step [OF Cons.prems] obtain cps2 cps3 e3 where
    e: "egressLoop c es (snd (policiesLoop c ps (v, cps))) = Inr cps2" and
    i: "ingressBlock en tag c cps2 = (cps3, e3)" and
    stop: "e3 \<noteq> None \<longrightarrow> cps' = cps3 \<and> None = e3" and
    go: "e3 = None \<longrightarrow>
       containersLoop en ps es tag cs (fst (policiesLoop c ps (v, cps)), cps3) = Inr (cps', None)"
    by blast
  from stop have e3: "e3 = None" by auto
  with go have rec: "containersLoop en ps es tag cs (fst (policiesLoop c ps (v, cps)), cps3) =
      Inr (cps', None)" by simp
  note E = egressLoop_Inr [OF e]
  note I = ingressBlock_None [OF i [unfolded e3]]
  note R = Cons.IH [OF rec]
  have d3: "containerPolicySet.Destination cps3 = containerPolicySet.Destination cps @
       map (destinationOf c) (filter (isDestination c) ps)"
    using E I by (simp add: policiesLoop_eq)
  have g3: "Egress cps3 = Egress cps @
       map (\<lambda>e. egressOf c e (hd (IPRanges (EgressPolicy.Destination e))))
         (filter (egressApplies c) es)"
    using E I by (simp add: policiesLoop_eq)
  have i3: "Ingress cps3 = Ingress cps @
       (if en \<and> container.Ports c \<noteq> []
        then map (\<lambda>port. ingressOf tag c (projr (Atoi (TrimSpace port))))
               (Split (container.Ports c) CHR '','')
        else [])"
    using E I by (simp add: policiesLoop_eq)
  show ?case
  proof (intro conjI)
    show "containerPolicySet.Destination cps' = containerPolicySet.Destination cps @
       concat (map (\<lambda>c. map (destinationOf c) (filter (isDestination c) ps)) (c # cs))"
      using R d3 by simp
    show "Egress cps' = Egress cps @
       concat (map (\<lambda>c. map (\<lambda>e. egressOf c e (hd (IPRanges (EgressPolicy.Destination e))))
                          (filter (egressApplies c) es)) (c # cs))"
      using R g3 by simp
    show "Ingress cps' = Ingress cps @
       concat (map (\<lambda>c. if en \<and> container.Ports c \<noteq> []
                        then map (\<lambda>port. ingressOf tag c (projr (Atoi (TrimSpace port))))
                               (Split (container.Ports c) CHR '','')
                        else []) (c # cs))"
      using R i3 by simp
    show "\<forall>c\<in>set (c # cs). \<forall>e\<in>set es. egressApplies c e \<longrightarrow>
        IPRanges (EgressPolicy.Destination e) \<noteq> []"
      using R E by simp
    show "\<forall>c\<in>set (c # cs). en \<and> container.Ports c \<noteq> [] \<longrightarrow>
        (\<forall>port\<in>set (Split (container.Ports c) CHR '',''). \<exists>n. Atoi (TrimSpace port) = Inr n)"
      using R I by simp
  qed
qed

lemma containersLoop_error:
  "containersLoop en ps es tag cs (v, cps) = Inr (cps', Some err) \<Longrightarrow>
     \<exists>c\<in>set cs. en \<and> container.Ports c \<noteq> [] \<and>
       (\<exists>port\<in>set (Split (container.Ports c) CHR '','').
          \<exists>ne. Atoi (TrimSpace port) = Inl ne \<and> err = ConvertingPort ne)"
proof (induction cs arbitrary: v cps)
  case Nil
  then show ?case by simp
next
  case (Cons c cs)
  from containersLoop_step [OF Cons.prems] obtain cps2 cps3 e3 where
    i: "ingressBlock en tag c cps2 = (cps3, e3)" and
    stop: "e3 \<noteq> None \<longrightarrow> cps' = cps3 \<and> Some err = e3" and
    go: "e3 = None \<longrightarrow>
       containersLoop en ps es tag cs (fst (policiesLoop c ps (v, cps)), cps3) =
         Inr (cps', Some err)"
    by blast
  show ?case
  proof (cases e3)
    case None
    with go Cons.IH show ?thesis by auto
  next
    case (Some x)
    with stop have "e3 = Some err" by auto
    with i ingressBlock_Some [of en tag c cps2 cps3 err] show ?thesis by auto
  qed
qed

lemma ingressBlock_total:
  "en \<and> container.Ports c \<noteq> [] \<longrightarrow>
     (\<forall>port\<in>set (Split (container.Ports c) CHR '',''). \<exists>n. Atoi (TrimSpace port) = Inr n) \<Longrightarrow>
   \<exists>cps'. ingressBlock en tag c cps = (cps', None)"
  using portsLoop_succeeds [of "Split (container.Ports c) CHR '',''" tag c cps]
  by (auto simp: ingressBlock_def)

lemma containersLoop_total:
  "(\<forall>c\<in>set cs. \<forall>e\<in>set es. egressApplies c e \<longrightarrow>
        IPRanges (EgressPolicy.Destination e) \<noteq> []) \<Longrightarrow>
   (\<forall>c\<in>set cs. en \<and> container.Ports c \<noteq> [] \<longrightarrow>
        (\<forall>port\<in>set (Split (container.Ports c) CHR '',''). \<exists>n. Atoi (TrimSpace port) = Inr n)) \<Longrightarrow>
   \<exists>cps'. containersLoop en ps es tag cs (v, cps) = Inr (cps', None)"
proof (induction cs arbitrary: v cps)
  case Nil
  then show ?case by simp
next
  case (Cons c cs)
  obtain v1 cps1 where p: "policiesLoop c ps (v, cps) = (v1, cps1)"
    by (cases "policiesLoop c ps (v, cps)")
  from Cons.prems(1) have "\<forall>e\<in>set es. egressApplies c e \<longrightarrow>
        IPRanges (EgressPolicy.Destination e) \<noteq> []" by simp
  from egressLoop_total [OF this] obtain cps2 where e: "egressLoop c es cps1 = Inr cps2"
    by blast
  from Cons.prems(2) have "en \<and> container.Ports c \<noteq> [] \<longrightarrow>
     (\<forall>port\<in>set (Split (container.Ports c) CHR '',''). \<exists>n. Atoi (TrimSpace port) = Inr n)"
    by simp
  from ingressBlock_total [OF this] obtain cps3 where i: "ingressBlock en tag c cps2 = (cps3, None)"
    by blast
  from Cons.prems have
    "\<exists>cps'. containersLoop en ps es tag cs (v1, cps3) = Inr (cps', None)"
    by (intro Cons.IH) simp_all
  with p e i show ?case by simp
qed

lemma containersLoop_no_panic:
  "(\<forall>c\<in>set cs. \<forall>e\<in>set es. egressApplies c e \<longrightarrow>
        IPRanges (EgressPolicy.Destination e) \<noteq> []) \<Longrightarrow>
   \<exists>r. containersLoop en ps es tag cs (v, cps) = Inr r"
proof (induction cs arbitrary: v cps)
  case Nil
  then show ?case by simp
next
  case (Cons c cs)
  obtain v1 cps1 where p: "policiesLoop c ps (v, cps) = (v1, cps1)"
    by (cases "policiesLoop c ps (v, cps)")
  from Cons.prems(1) have "\<forall>e\<in>set es. egressApplies c e \<longrightarrow>
        IPRanges (EgressPolicy.Destination e) \<noteq> []" by simp
  from egressLoop_total [OF this] obtain cps2 where e: "egressLoop c es cps1 = Inr cps2"
    by blast
  obtain cps3 e3 where i: "ingressBlock en tag c cps2 = (cps3, e3)"
    by (cases "ingressBlock en tag c cps2")
  from Cons.prems have
    "\<exists>r. containersLoop en ps es tag cs (v1, cps3) = Inr r"
    by (intro Cons.IH) simp_all
  with p e i show ?case by (cases e3) auto
qed

lemma containersLoop_panics:
  "(\<forall>c\<in>set cs. en \<and> container.Ports c \<noteq> [] \<longrightarrow>
        (\<forall>port\<in>set (Split (container.Ports c) CHR '',''). \<exists>n. Atoi (TrimSpace port) = Inr n)) \<Longrightarrow>
   \<exists>c\<in>set cs. \<exists>e\<in>set es. egressApplies c e \<and> IPRanges (EgressPolicy.Destination e) = [] \<Longrightarrow>
   containersLoop en ps es tag cs (v, cps) = Inl IndexOutOfRange"
proof (induction cs arbitrary: v cps)
  case Nil
  then show ?case by simp
next
  case (Cons c cs)
  obtain v1 cps1 where p: "policiesLoop c ps (v, cps) = (v1, cps1)"
    by (cases "policiesLoop c ps (v, cps)")
  show ?case
  proof (cases "\<exists>e\<in>set es. egressApplies c e \<and> IPRanges (EgressPolicy.Destination e) = []")
    case True
    then obtain e where "e \<in> set es" "egressApplies c e"
      "IPRanges (EgressPolicy.Destination e) = []" by blast
    from egressLoop_panics [OF this] have "egressLoop c es cps1 = Inl IndexOutOfRange" .
    with p show ?thesis by simp
  next
    case False
    then have "\<forall>e\<in>set es. egressApplies c e \<longrightarrow>
        IPRanges (EgressPolicy.Destination e) \<noteq> []" by blast
    from egressLoop_total [OF this] obtain cps2 where e: "egressLoop c es cps1 = Inr cps2"
      by blast
    from Cons.prems(1) have "en \<and> container.Ports c \<noteq> [] \<longrightarrow>
     (\<forall>port\<in>set (Split (container.Ports c) CHR '',''). \<exists>n. Atoi (TrimSpace port) = Inr n)"
      by simp
    from ingressBlock_total [OF this] obtain cps3 where
      i: "ingressBlock en tag c cps2 = (cps3, None)" by blast
    from Cons.prems False have
      "containersLoop en ps es tag cs (v1, cps3) = Inl IndexOutOfRange"
      by (intro Cons.IH) auto
    with p e i show ?thesis by simp
  qed
qed

subsection \<open>The result of \<^verbatim>\<open>getContainerPolicies\<close>\<close>

lemma mset_sortAll:
  "mset (containerPolicySet.Source (sortAll cps)) = mset (containerPolicySet.Source cps)"
  "mset (containerPolicySet.Destination (sortAll cps)) = mset (containerPolicySet.Destination cps)"
  "mset (Egress (sortAll cps)) = mset (Egress cps)"
  "mset (Ingress (sortAll cps)) = mset (Ingress cps)"
  by (simp_all add: sortAll_def sortSources_def sortDestinations_def sortEgresses_def
      sortIngresses_def)

lemma set_sortAll:
  "set (containerPolicySet.Source (sortAll cps)) = set (containerPolicySet.Source cps)"
  "set (containerPolicySet.Destination (sortAll cps)) = set (containerPolicySet.Destination cps)"
  "set (Egress (sortAll cps)) = set (Egress cps)"
  "set (Ingress (sortAll cps)) = set (Ingress cps)"
  by (simp_all add: sortAll_def sortSources_def sortDestinations_def sortEgresses_def
      sortIngresses_def)

lemma getContainerPolicies_Inr:
  assumes "getContainerPolicies en ps es tag cs = Inr (r, err)"
  shows "\<exists>cps. containersLoop en ps es tag cs (Map.empty, emptyPolicySet) = Inr (cps, err) \<and>
           r = (if err = None then sortAll cps else cps)"
proof (cases "containersLoop en ps es tag cs (Map.empty, emptyPolicySet)")
  case (Inl p)
  with assms show ?thesis by (simp add: getContainerPolicies_def)
next
  case (Inr x)
  obtain cps e where x: "x = (cps, e)" by (cases x)
  with Inr assms show ?thesis
    by (cases e) (auto simp: getContainerPolicies_def)
qed

lemma getContainerPolicies_Inl:
  "getContainerPolicies en ps es tag cs = Inl p \<longleftrightarrow>
   containersLoop en ps es tag cs (Map.empty, emptyPolicySet) = Inl p"
  by (auto simp: getContainerPolicies_def split: sum.splits prod.splits option.splits)

lemma containersLoop_Source_empty:
  assumes "containersLoop en ps es tag cs (Map.empty, emptyPolicySet) = Inr (cps, err)"
  shows "distinct (map source.IP (containerPolicySet.Source cps)) \<and>
     (\<forall>s\<in>set (containerPolicySet.Source cps).
        (\<exists>c p. find (\<lambda>(c, p). container.IP c = source.IP s)
                 (filter (\<lambda>(c, p). isSource c p) (List.product cs ps)) = Some (c, p) \<and>
               s = sourceOf c p)) \<and>
     (err = None \<longrightarrow>
        (\<forall>c\<in>set cs. \<forall>p\<in>set ps. isSource c p \<longrightarrow>
           container.IP c \<in> source.IP ` set (containerPolicySet.Source cps)))"
  using containersLoop_Source [OF assms]
  by (clarsimp simp: emptyPolicySet_def)

lemma egressApplies_iff:
  "egressApplies c e \<longleftrightarrow>
     (EgressSource.ID (EgressPolicy.Source e) = container.AppID c \<or>
      (EgressSource.Type (EgressPolicy.Source e) = ''space'' \<and>
       EgressSource.ID (EgressPolicy.Source e) = container.SpaceID c) \<or>
      EgressSource.Type (EgressPolicy.Source e) = ''default'') \<and>
     (AppLifecycle e = ''all'' \<or>
      container.Purpose c = [] \<or>
      (AppLifecycle e = ''running'' \<and>
         (container.Purpose c = ''task'' \<or> container.Purpose c = ''app'')) \<or>
      (AppLifecycle e = ''staging'' \<and> container.Purpose c = ''staging''))"
  unfolding egressApplies_def containerPurposeMatchesAppLifecycle_def by blast

lemma getContainerPolicies_Egress:
  assumes "getContainerPolicies en ps es tag cs = Inr (r, None)"
  shows "Egress r = sortEgresses (concat (map (\<lambda>c.
           map (\<lambda>e. egressOf c e (hd (IPRanges (EgressPolicy.Destination e))))
             (filter (egressApplies c) es)) cs))"
    and "\<forall>c\<in>set cs. \<forall>e\<in>set es. egressApplies c e \<longrightarrow>
           IPRanges (EgressPolicy.Destination e) \<noteq> []"
proof -
  from getContainerPolicies_Inr [OF assms] obtain cps where
    loop: "containersLoop en ps es tag cs (Map.empty, emptyPolicySet) = Inr (cps, None)" and
    r: "r = sortAll cps" by auto
  note R = containersLoop_rest [OF loop]
  from R r show "Egress r = sortEgresses (concat (map (\<lambda>c.
           map (\<lambda>e. egressOf c e (hd (IPRanges (EgressPolicy.Destination e))))
             (filter (egressApplies c) es)) cs))"
    by (simp add: sortAll_def emptyPolicySet_def)
  from R show "\<forall>c\<in>set cs. \<forall>e\<in>set es. egressApplies c e \<longrightarrow>
           IPRanges (EgressPolicy.Destination e) \<noteq> []"
    by simp
qed

section \<open>The claims about policy resolution\<close>

text \<open>
  Claim C5. In every pass that returns, no two SourceMarks carry the same IP; each
  SourceMark is the one built from the first (container, policy) pair, in the order of
  the two nested loops, whose container has that IP and whose policy names the
  container's app as its source, so its Tag and GUID are that policy's; when the pass
  returns no error, every container that some policy names as source has a SourceMark
  for its IP; and the DestinationAllow sequence holds one tuple for every
  (container, policy) pair whose policy names the container's app as its destination,
  with no deduplication.
\<close>
theorem source_marks_deduplicated:
  assumes "getContainerPolicies en ps es tag cs = Inr (r, err)"
  shows "distinct (map source.IP (containerPolicySet.Source r)) \<and>
    (\<forall>s\<in>set (containerPolicySet.Source r).
       \<exists>c p. find (\<lambda>(c, p). container.IP c = source.IP s)
                (filter (\<lambda>(c, p). container.AppID c = Source.ID (Policy.Source p))
                   (List.product cs ps)) = Some (c, p) \<and>
             s = sourceOf c p \<and>
             source.Tag s = Source.Tag (Policy.Source p) \<and>
             source.GUID s = Source.ID (Policy.Source p)) \<and>
    (err = None \<longrightarrow>
       (\<forall>c\<in>set cs. \<forall>p\<in>set ps. container.AppID c = Source.ID (Policy.Source p) \<longrightarrow>
          container.IP c \<in> source.IP ` set (containerPolicySet.Source r))) \<and>
    (err = None \<longrightarrow>
       mset (containerPolicySet.Destination r) =
       mset (concat (map (\<lambda>c. map (destinationOf c)
               (filter (\<lambda>p. container.AppID c = Destination.ID (Policy.Destination p)) ps)) cs)))"
proof -
  from getContainerPolicies_Inr [OF assms] obtain cps where
    loop: "containersLoop en ps es tag cs (Map.empty, emptyPolicySet) = Inr (cps, err)" and
    r: "r = (if err = None then sortAll cps else cps)" by blast
  define new where "new = containerPolicySet.Source cps"
  from containersLoop_Source_empty [OF loop]
  have src: "containerPolicySet.Source cps = new"
    and d: "distinct (map source.IP new)"
    and f: "\<forall>s\<in>set new.
        (\<exists>c p. find (\<lambda>(c, p). container.IP c = source.IP s)
                 (filter (\<lambda>(c, p). isSource c p) (List.product cs ps)) = Some (c, p) \<and>
               s = sourceOf c p)"
    and a: "err = None \<longrightarrow>
        (\<forall>c\<in>set cs. \<forall>p\<in>set ps. isSource c p \<longrightarrow>
           container.IP c \<in> source.IP ` set new)"
    by (simp_all add: new_def)
  have m: "mset (containerPolicySet.Source r) = mset new"
    using r src by (simp add: mset_sortAll)
  then have s: "set (containerPolicySet.Source r) = set new"
    by (rule mset_eq_setD)
  have "mset (map source.IP (containerPolicySet.Source r)) = mset (map source.IP new)"
    using m by simp
  from mset_eq_imp_distinct_iff [OF this] d
  have 1: "distinct (map source.IP (containerPolicySet.Source r))"
    by blast
  have 2: "\<forall>s\<in>set (containerPolicySet.Source r).
       \<exists>c p. find (\<lambda>(c, p). container.IP c = source.IP s)
                (filter (\<lambda>(c, p). container.AppID c = Source.ID (Policy.Source p))
                   (List.product cs ps)) = Some (c, p) \<and>
             s = sourceOf c p \<and>
             source.Tag s = Source.Tag (Policy.Source p) \<and>
             source.GUID s = Source.ID (Policy.Source p)"
  proof
    fix x assume "x \<in> set (containerPolicySet.Source r)"
    with s f obtain c p where
      "find (\<lambda>(c, p). container.IP c = source.IP x)
         (filter (\<lambda>(c, p). isSource c p) (List.product cs ps)) = Some (c, p)"
      "x = sourceOf c p" by blast
    then show "\<exists>c p. find (\<lambda>(c, p). container.IP c = source.IP x)
                (filter (\<lambda>(c, p). container.AppID c = Source.ID (Policy.Source p))
                   (List.product cs ps)) = Some (c, p) \<and>
             x = sourceOf c p \<and>
             source.Tag x = Source.Tag (Policy.Source p) \<and>
             source.GUID x = Source.ID (Policy.Source p)"
      by (auto simp: sourceOf_def)
  qed
  have 3: "err = None \<longrightarrow>
       (\<forall>c\<in>set cs. \<forall>p\<in>set ps. container.AppID c = Source.ID (Policy.Source p) \<longrightarrow>
          container.IP c \<in> source.IP ` set (containerPolicySet.Source r))"
    using a s by simp
  have 4: "err = None \<longrightarrow>
       mset (containerPolicySet.Destination r) =
       mset (concat (map (\<lambda>c. map (destinationOf c)
               (filter (\<lambda>p. container.AppID c = Destination.ID (Policy.Destination p)) ps)) cs))"
  proof
    assume e: "err = None"
    with loop have "containersLoop en ps es tag cs (Map.empty, emptyPolicySet) = Inr (cps, None)"
      by simp
    from containersLoop_rest [OF this]
    have "containerPolicySet.Destination cps =
       concat (map (\<lambda>c. map (destinationOf c) (filter (isDestination c) ps)) cs)"
      by (simp add: emptyPolicySet_def)
    with r e show "mset (containerPolicySet.Destination r) =
       mset (concat (map (\<lambda>c. map (destinationOf c)
               (filter (\<lambda>p. container.AppID c = Destination.ID (Policy.Destination p)) ps)) cs))"
      by (simp add: mset_sortAll)
  qed
  from 1 2 3 4 show ?thesis by (intro conjI)
qed

theorem source_marks_deduplicated_witness:
  "getContainerPolicies False [exPolicy ''42'' 9, exPolicy ''43'' 10] [] ''t'' [exA, exB] =
     Inr (exResult, None) \<and>
   distinct (map source.IP (containerPolicySet.Source exResult)) \<and>
   length (containerPolicySet.Source exResult) = 1 \<and>
   mset (containerPolicySet.Destination exResult) =
     mset [destinationOf exB (exPolicy ''42'' 9), destinationOf exB (exPolicy ''43'' 10)]"
proof -
  have h: "getContainerPolicies False [exPolicy ''42'' 9, exPolicy ''43'' 10] [] ''t'' [exA, exB] =
     Inr (exResult, None)"
    by code_simp
  have l: "length (containerPolicySet.Source exResult) = 1"
    by (simp add: exResult_def)
  have f: "concat (map (\<lambda>c. map (destinationOf c)
               (filter (\<lambda>p. container.AppID c = Destination.ID (Policy.Destination p))
                  [exPolicy ''42'' 9, exPolicy ''43'' 10])) [exA, exB]) =
           [destinationOf exB (exPolicy ''42'' 9), destinationOf exB (exPolicy ''43'' 10)]"
    by (simp add: exA_def exB_def exPolicy_def)
  note T = source_marks_deduplicated [OF h]
  from T have d: "distinct (map source.IP (containerPolicySet.Source exResult))"
    by (rule conjunct1)
  note D = T [THEN conjunct2, THEN conjunct2, THEN conjunct2, rule_format, OF refl]
  from D have m: "mset (containerPolicySet.Destination exResult) =
     mset [destinationOf exB (exPolicy ''42'' 9), destinationOf exB (exPolicy ''43'' 10)]"
    by (simp only: f)
  from h d l m show ?thesis by (intro conjI)
qed

text \<open>
  Claim C7. In a pass that returns without error, the EgressRule sequence holds exactly
  one rule for every (container, egress policy) pair that satisfies both predicates, and
  nothing else: the source scope (the policy's Source.ID is the container's AppID, or its
  Source.Type is "space" and its Source.ID is the container's SpaceID, or its Source.Type
  is "default") and the lifecycle gate (AppLifecycle is "all", or the container's Purpose
  is empty, or AppLifecycle is "running" and Purpose is "task" or "app", or AppLifecycle
  is "staging" and Purpose is "staging").
\<close>
theorem egress_rule_iff_scope_and_lifecycle:
  assumes "getContainerPolicies en ps es tag cs = Inr (r, None)"
  shows "mset (Egress r) =
      mset (concat (map (\<lambda>c.
        map (\<lambda>e. egressOf c e (hd (IPRanges (EgressPolicy.Destination e))))
          (filter (\<lambda>e.
             (EgressSource.ID (EgressPolicy.Source e) = container.AppID c \<or>
              (EgressSource.Type (EgressPolicy.Source e) = ''space'' \<and>
               EgressSource.ID (EgressPolicy.Source e) = container.SpaceID c) \<or>
              EgressSource.Type (EgressPolicy.Source e) = ''default'') \<and>
             (AppLifecycle e = ''all'' \<or>
              container.Purpose c = [] \<or>
              (AppLifecycle e = ''running'' \<and>
                 (container.Purpose c = ''task'' \<or> container.Purpose c = ''app'')) \<or>
              (AppLifecycle e = ''staging'' \<and> container.Purpose c = ''staging''))) es)) cs)) \<and>
    (\<forall>x. x \<in> set (Egress r) \<longleftrightarrow>
       (\<exists>c\<in>set cs. \<exists>e\<in>set es.
          (EgressSource.ID (EgressPolicy.Source e) = container.AppID c \<or>
           (EgressSource.Type (EgressPolicy.Source e) = ''space'' \<and>
            EgressSource.ID (EgressPolicy.Source e) = container.SpaceID c) \<or>
           EgressSource.Type (EgressPolicy.Source e) = ''default'') \<and>
          (AppLifecycle e = ''all'' \<or>
           container.Purpose c = [] \<or>
           (AppLifecycle e = ''running'' \<and>
              (container.Purpose c = ''task'' \<or> container.Purpose c = ''app'')) \<or>
           (AppLifecycle e = ''staging'' \<and> container.Purpose c = ''staging'')) \<and>
          x = egressOf c e (hd (IPRanges (EgressPolicy.Destination e)))))"
proof -
  have ap: "egressApplies = (\<lambda>c e.
             (EgressSource.ID (EgressPolicy.Source e) = container.AppID c \<or>
              (EgressSource.Type (EgressPolicy.Source e) = ''space'' \<and>
               EgressSource.ID (EgressPolicy.Source e) = container.SpaceID c) \<or>
              EgressSource.Type (EgressPolicy.Source e) = ''default'') \<and>
             (AppLifecycle e = ''all'' \<or>
              container.Purpose c = [] \<or>
              (AppLifecycle e = ''running'' \<and>
                 (container.Purpose c = ''task'' \<or> container.Purpose c = ''app'')) \<or>
              (AppLifecycle e = ''staging'' \<and> container.Purpose c = ''staging'')))"
    by (intro ext) (rule egressApplies_iff)
  have E: "Egress r = sortEgresses (concat (map (\<lambda>c.
           map (\<lambda>e. egressOf c e (hd (IPRanges (EgressPolicy.Destination e))))
             (filter (egressApplies c) es)) cs))"
    by (rule getContainerPolicies_Egress(1) [OF assms])
  have 1: "mset (Egress r) =
      mset (concat (map (\<lambda>c.
        map (\<lambda>e. egressOf c e (hd (IPRanges (EgressPolicy.Destination e))))
          (filter (egressApplies c) es)) cs))"
    unfolding E sortEgresses_def by simp
  have 2: "\<forall>x. x \<in> set (Egress r) \<longleftrightarrow>
       (\<exists>c\<in>set cs. \<exists>e\<in>set es. egressApplies c e \<and>
          x = egressOf c e (hd (IPRanges (EgressPolicy.Destination e))))"
    unfolding E sortEgresses_def by auto
  from 1 2 show ?thesis unfolding ap conj_assoc by (intro conjI)
qed

theorem egress_rule_iff_scope_and_lifecycle_witness:
  "getContainerPolicies False []
     [exEgress ''A'' ''app'' ''staging'' [exRange], exEgress ''S'' ''space'' ''staging'' [exRange]]
     ''t'' [exA, exB] = Inr (exEgressResult, None) \<and>
   mset (Egress exEgressResult) =
     mset [egressOf exB (exEgress ''S'' ''space'' ''staging'' [exRange]) exRange]"
proof -
  have h: "getContainerPolicies False []
     [exEgress ''A'' ''app'' ''staging'' [exRange], exEgress ''S'' ''space'' ''staging'' [exRange]]
     ''t'' [exA, exB] = Inr (exEgressResult, None)"
    by code_simp
  have e: "Egress exEgressResult =
      [egressOf exB (exEgress ''S'' ''space'' ''staging'' [exRange]) exRange]"
    by (simp add: exEgressResult_def egressOf_def exB_def exEgress_def exRange_def)
  from egress_rule_iff_scope_and_lifecycle [OF h] e h show ?thesis by simp
qed


text \<open>
  Claim C10. \<^verbatim>\<open>IPRanges[0]\<close> is read with no bounds check. If every egress policy that
  passes both predicates for some container has at least one IP range, the pass does not
  panic. If some such policy has none, the pass never returns a policy set without
  error, and it panics with an index out of range whenever no ingress port stops it
  earlier. An empty \<^verbatim>\<open>Ports\<close> list is handled: the rule of such a policy is emitted
  with PortStart = PortEnd = 0.
\<close>
theorem egress_needs_an_ip_range:
  "((\<forall>c\<in>set cs. \<forall>e\<in>set es. egressApplies c e \<longrightarrow>
        IPRanges (EgressPolicy.Destination e) \<noteq> []) \<longrightarrow>
      (\<exists>res. getContainerPolicies en ps es tag cs = Inr res)) \<and>
   ((\<exists>c\<in>set cs. \<exists>e\<in>set es. egressApplies c e \<and>
        IPRanges (EgressPolicy.Destination e) = []) \<longrightarrow>
      (\<forall>r. getContainerPolicies en ps es tag cs \<noteq> Inr (r, None)) \<and>
      ((\<forall>c\<in>set cs. en \<and> container.Ports c \<noteq> [] \<longrightarrow>
          (\<forall>port\<in>set (Split (container.Ports c) CHR '','').
             \<exists>n. Atoi (TrimSpace port) = Inr n)) \<longrightarrow>
       getContainerPolicies en ps es tag cs = Inl IndexOutOfRange)) \<and>
   (\<forall>r. getContainerPolicies en ps es tag cs = Inr (r, None) \<longrightarrow>
      (\<forall>c\<in>set cs. \<forall>e\<in>set es.
         egressApplies c e \<and> EgressDestination.Ports (EgressPolicy.Destination e) = [] \<longrightarrow>
         (\<exists>x\<in>set (Egress r).
            x = egressOf c e (hd (IPRanges (EgressPolicy.Destination e))) \<and>
            PortStart x = 0 \<and> PortEnd x = 0)))"
proof (intro conjI impI allI)
  assume "\<forall>c\<in>set cs. \<forall>e\<in>set es. egressApplies c e \<longrightarrow>
        IPRanges (EgressPolicy.Destination e) \<noteq> []"
  from containersLoop_no_panic [OF this, of en ps tag Map.empty emptyPolicySet]
  obtain x where "containersLoop en ps es tag cs (Map.empty, emptyPolicySet) = Inr x" ..
  then show "\<exists>res. getContainerPolicies en ps es tag cs = Inr res"
    by (cases x; cases "snd x") (auto simp: getContainerPolicies_def)
next
  fix r
  assume bad: "\<exists>c\<in>set cs. \<exists>e\<in>set es. egressApplies c e \<and>
        IPRanges (EgressPolicy.Destination e) = []"
  show "getContainerPolicies en ps es tag cs \<noteq> Inr (r, None)"
  proof
    assume "getContainerPolicies en ps es tag cs = Inr (r, None)"
    from getContainerPolicies_Egress(2) [OF this] bad show False by blast
  qed
next
  assume bad: "\<exists>c\<in>set cs. \<exists>e\<in>set es. egressApplies c e \<and>
        IPRanges (EgressPolicy.Destination e) = []"
    and ok: "\<forall>c\<in>set cs. en \<and> container.Ports c \<noteq> [] \<longrightarrow>
          (\<forall>port\<in>set (Split (container.Ports c) CHR '','').
             \<exists>n. Atoi (TrimSpace port) = Inr n)"
  from containersLoop_panics [OF ok bad]
  show "getContainerPolicies en ps es tag cs = Inl IndexOutOfRange"
    by (simp add: getContainerPolicies_Inl)
next
  fix r
  assume h: "getContainerPolicies en ps es tag cs = Inr (r, None)"
  show "\<forall>c\<in>set cs. \<forall>e\<in>set es.
         egressApplies c e \<and> EgressDestination.Ports (EgressPolicy.Destination e) = [] \<longrightarrow>
         (\<exists>x\<in>set (Egress r).
            x = egressOf c e (hd (IPRanges (EgressPolicy.Destination e))) \<and>
            PortStart x = 0 \<and> PortEnd x = 0)"
  proof (intro ballI impI)
    fix c e
    assume c: "c \<in> set cs" and e: "e \<in> set es"
      and a: "egressApplies c e \<and> EgressDestination.Ports (EgressPolicy.Destination e) = []"
    have "egressOf c e (hd (IPRanges (EgressPolicy.Destination e))) \<in> set (Egress r)"
      unfolding getContainerPolicies_Egress(1) [OF h] sortEgresses_def
      using c e a by auto
    moreover have "PortStart (egressOf c e (hd (IPRanges (EgressPolicy.Destination e)))) = 0"
      "PortEnd (egressOf c e (hd (IPRanges (EgressPolicy.Destination e)))) = 0"
      using a by (simp_all add: egressOf_def)
    ultimately show "\<exists>x\<in>set (Egress r).
            x = egressOf c e (hd (IPRanges (EgressPolicy.Destination e))) \<and>
            PortStart x = 0 \<and> PortEnd x = 0"
      by blast
  qed
qed

theorem egress_needs_an_ip_range_witness:
  "getContainerPolicies False [] [exEgress ''A'' ''app'' ''all'' []] ''t'' [exA] =
     Inl IndexOutOfRange \<and>
   (\<exists>res. getContainerPolicies False [] [exEgress ''A'' ''app'' ''all'' [exRange]] ''t'' [exA] =
     Inr res)"
proof -
  have bad: "\<exists>c\<in>set [exA]. \<exists>e\<in>set [exEgress ''A'' ''app'' ''all'' []].
      egressApplies c e \<and> IPRanges (EgressPolicy.Destination e) = []"
    by (simp add: egressApplies_def containerPurposeMatchesAppLifecycle_def exA_def exEgress_def)
  have ports: "\<forall>c\<in>set [exA]. False \<and> container.Ports c \<noteq> [] \<longrightarrow>
      (\<forall>port\<in>set (Split (container.Ports c) CHR '','').
         \<exists>n. Atoi (TrimSpace port) = Inr n)"
    by simp
  have good: "\<forall>c\<in>set [exA]. \<forall>e\<in>set [exEgress ''A'' ''app'' ''all'' [exRange]].
      egressApplies c e \<longrightarrow> IPRanges (EgressPolicy.Destination e) \<noteq> []"
    by (simp add: exEgress_def)
  from egress_needs_an_ip_range [of "[exA]" "[exEgress ''A'' ''app'' ''all'' []]" False "[]" "''t''"]
    bad ports
  have 1: "getContainerPolicies False [] [exEgress ''A'' ''app'' ''all'' []] ''t'' [exA] =
     Inl IndexOutOfRange"
    by blast
  from egress_needs_an_ip_range
    [of "[exA]" "[exEgress ''A'' ''app'' ''all'' [exRange]]" False "[]" "''t''"] good
  have 2: "\<exists>res. getContainerPolicies False [] [exEgress ''A'' ''app'' ''all'' [exRange]] ''t'' [exA] =
     Inr res"
    by blast
  from 1 2 show ?thesis by (intro conjI)
qed


end
